theory Spec2Isabelle
  imports Main "HOL-Library.Multiset"
begin

section \<open>The indirect binary heap of isl\_binary\_heap.h\<close>

text \<open>
  A shallow embedding of the single-header C library. The node array is a list whose
  length is the number of slots really allocated; \<open>size_t\<close> values are natural numbers.
  Caller data (\<open>const void *item\<close>) is a value of an arbitrary type \<open>'a\<close>, and the comparator
  is a function on such values returning a C \<open>int\<close>, of which only the sign is used.

  An access outside the node array is undefined behaviour in C. The model makes it a
  result of its own, \<open>OutOfBounds\<close>: every read or write of \<open>nodes[i]\<close> is guarded by
  \<open>i < size (nodes h)\<close> at the place where the code performs it.

  Arithmetic on capacities, counts and byte sizes (\<open>allocated * 2\<close>, \<open>length + count\<close>,
  \<open>sizeof(islbh_node) * newalloc\<close>) wraps around modulo \<open>SIZE_MOD\<close>, a 64-bit \<open>size_t\<close>. The
  child and parent indices inside the sift loops are computed on indices below \<open>length\<close>;
  they are written without wrap-around, which is exact as long as the array has fewer than
  \<open>2 ^ 63\<close> slots.

  The allocator is a parameter of the model. It is asked for a number of bytes, the
  product that the code computes in \<open>size_t\<close>, and the array it returns has as many slots as
  fit into that number of bytes, whatever capacity the heap records.
\<close>

subsection \<open>Data\<close>

record 'a islbh_node =
  item :: 'a
  index :: nat

record 'a islbh_binary_heap =
  length_h :: nat
  allocated :: nat
  cmp :: "'a \<Rightarrow> 'a \<Rightarrow> int"
  nodes :: "'a islbh_node list"

datatype islbh_error =
  ISLBH_ERROR_OK
  | ISLBH_ERROR_BAD_ALLOC
  | ISLBH_ERROR_NOT_EXIST
  | ISLBH_ERROR_NULL_NODE

text \<open>The result of running a function: it returns, or it leaves the node array.\<close>

datatype 'r outcome = OutOfBounds | Returns 'r

text \<open>
  A non-null \<open>islbh_node *\<close>: the address of slot \<open>k\<close> of the heap's current array
  (\<open>self->nodes + k\<close>), or the address of a node object that lives elsewhere (a stale copy,
  a node of another heap), given by the contents found there. \<open>NULL\<close> is \<open>None\<close> of the
  option type around it.
\<close>

datatype 'a node_ptr = Slot nat | Foreign "'a islbh_node"

definition SIZE_MOD :: nat where
  "SIZE_MOD = 2 ^ 64"

text \<open>
  \<open>sizeof(islbh_node)\<close>, a pointer and a \<open>size_t\<close> of 8 bytes each, and the largest size in
  bytes that an object can have.
\<close>

definition NODE_SIZE :: nat where
  "NODE_SIZE = 16"

definition PTRDIFF_MAX :: nat where
  "PTRDIFF_MAX = 2 ^ 63 - 1"

text \<open>
  The allocator is a parameter. \<open>serve a n\<close> is its answer to a request of \<open>n\<close> bytes:
  \<open>None\<close> when the call returns \<open>NULL\<close>, and \<open>Some fresh\<close> when it returns a block, where
  \<open>fresh i\<close> is the indeterminate content of the new slot \<open>i\<close>. \<open>zero_frees a\<close> says what
  \<open>realloc(p, 0)\<close> does, which the C standard leaves to the implementation: when it holds,
  the call frees the block and returns \<open>NULL\<close>, as the \<open>realloc\<close> of glibc does; otherwise
  the request is answered as any other.
\<close>

record 'a allocator =
  serve :: "nat \<Rightarrow> (nat \<Rightarrow> 'a islbh_node) option"
  zero_frees :: bool

text \<open>
  \<open>ISLBH_MALLOC\<close> returns \<open>NULL\<close> (\<open>None\<close>) or a block of \<open>bytes\<close> bytes, which holds
  \<open>bytes div NODE_SIZE\<close> slots. No object has more than \<open>PTRDIFF_MAX\<close> bytes, so a larger
  request is refused.
\<close>

definition ISLBH_MALLOC :: "'a allocator \<Rightarrow> nat \<Rightarrow> 'a islbh_node list option" where
  "ISLBH_MALLOC ma bytes =
     (if PTRDIFF_MAX < bytes then None
      else
        (case serve ma bytes of
           None \<Rightarrow> None
         | Some fresh \<Rightarrow> Some (map fresh [0..<bytes div NODE_SIZE])))"

text \<open>
  \<open>ISLBH_REALLOC\<close> on the block \<open>ns\<close>: it returns \<open>NULL\<close> and leaves the block as it is
  (always so for a request of more than \<open>PTRDIFF_MAX\<close> bytes), or returns \<open>NULL\<close> after it
  freed the block (for a request of 0 bytes only), or returns a block of \<open>bytes\<close> bytes
  that starts with the old content.
\<close>

datatype 'a realloc_result = Null_kept | Null_freed | Block "'a islbh_node list"

definition ISLBH_REALLOC ::
  "'a allocator \<Rightarrow> 'a islbh_node list \<Rightarrow> nat \<Rightarrow> 'a realloc_result" where
  "ISLBH_REALLOC ra ns bytes =
     (if bytes = 0 \<and> zero_frees ra then Null_freed
      else if PTRDIFF_MAX < bytes then Null_kept
      else
        (case serve ra bytes of
           None \<Rightarrow> Null_kept
         | Some fresh \<Rightarrow>
             Block (take (bytes div NODE_SIZE) ns
                      @ map fresh [size ns..<bytes div NODE_SIZE])))"

subsection \<open>Creation and growth\<close>

text \<open>
  \<open>self_ok\<close> says whether the \<open>malloc\<close> of the heap record itself succeeds. The node array
  is requested by its size in bytes, \<open>prealloc * sizeof(islbh_node)\<close>, computed in \<open>size_t\<close>.
\<close>

definition islbh_create ::
  "bool \<Rightarrow> 'a allocator \<Rightarrow> nat \<Rightarrow> ('a \<Rightarrow> 'a \<Rightarrow> int) \<Rightarrow> 'a islbh_binary_heap option" where
  "islbh_create self_ok ma prealloc c =
     (if self_ok then
        (case ISLBH_MALLOC ma (prealloc * NODE_SIZE mod SIZE_MOD) of
           Some ns \<Rightarrow> Some \<lparr>length_h = 0, allocated = prealloc, cmp = c, nodes = ns\<rparr>
         | None \<Rightarrow> None)
      else None)"

text \<open>
  \<open>islbh__grow\<close> requests \<open>sizeof(islbh_node) * newalloc\<close> bytes, computed in \<open>size_t\<close>, and
  on success records \<open>newalloc\<close> as the capacity. When \<open>realloc\<close> freed the array, the
  field \<open>nodes\<close> is left pointing to it: no slot of it can be accessed any more, which is
  the empty list.
\<close>

definition islbh__grow ::
  "'a allocator \<Rightarrow> 'a islbh_binary_heap \<Rightarrow> nat \<Rightarrow> islbh_error \<times> 'a islbh_binary_heap" where
  "islbh__grow ra h newalloc =
     (case ISLBH_REALLOC ra (nodes h) (NODE_SIZE * newalloc mod SIZE_MOD) of
        Block ns \<Rightarrow> (ISLBH_ERROR_OK, h\<lparr>allocated := newalloc, nodes := ns\<rparr>)
      | Null_kept \<Rightarrow> (ISLBH_ERROR_BAD_ALLOC, h)
      | Null_freed \<Rightarrow> (ISLBH_ERROR_BAD_ALLOC, h\<lparr>nodes := []\<rparr>))"

subsection \<open>Swap and the sift primitives\<close>

definition islbh__swap ::
  "'a islbh_binary_heap \<Rightarrow> nat \<Rightarrow> nat \<Rightarrow> 'a islbh_binary_heap outcome" where
  "islbh__swap h index1 index2 =
     (if index1 < size (nodes h) \<and> index2 < size (nodes h) then
        (let tmp = nodes h ! index1;
             ns1 = (nodes h)[index1 := nodes h ! index2];
             ns2 = ns1[index2 := tmp];
             ns3 = ns2[index1 := (ns2 ! index1)\<lparr>index := index1\<rparr>];
             ns4 = ns3[index2 := (ns3 ! index2)\<lparr>index := index2\<rparr>]
         in Returns (h\<lparr>nodes := ns4\<rparr>))
      else OutOfBounds)"

function islbh__siftup ::
  "'a islbh_binary_heap \<Rightarrow> nat \<Rightarrow> ('a islbh_binary_heap \<times> nat) outcome" where
  "islbh__siftup h idx =
     (let parent = (idx - 1) div 2 in
      if 0 < idx then
        (if idx < size (nodes h) then
           (if cmp h (item (nodes h ! idx)) (item (nodes h ! parent)) < 0 then
              (case islbh__swap h idx parent of
                 OutOfBounds \<Rightarrow> OutOfBounds
               | Returns h' \<Rightarrow> islbh__siftup h' parent)
            else Returns (h, idx))
         else OutOfBounds)
      else Returns (h, idx))"
  by pat_completeness auto
termination
  by (relation "measure (\<lambda>(h, idx). idx)") auto

declare islbh__siftup.simps [simp del]

function islbh__siftdown_floyd ::
  "'a islbh_binary_heap \<Rightarrow> nat \<Rightarrow> 'a islbh_binary_heap outcome" where
  "islbh__siftdown_floyd h idx =
     (let left = idx * 2 + 1; right = left + 1 in
      if left < length_h h then
        (if right < length_h h \<and> size (nodes h) \<le> right then OutOfBounds
         else
           (let higher =
                  (if right < length_h h
                      \<and> cmp h (item (nodes h ! right)) (item (nodes h ! left)) < 0
                   then right else left)
            in case islbh__swap h idx higher of
                 OutOfBounds \<Rightarrow> OutOfBounds
               | Returns h' \<Rightarrow> islbh__siftdown_floyd h' higher))
      else
        (case islbh__siftup h idx of
           OutOfBounds \<Rightarrow> OutOfBounds
         | Returns (h', _) \<Rightarrow> Returns h'))"
  by pat_completeness auto
termination
  by (relation "measure (\<lambda>(h, idx). length_h h - idx)")
    (auto simp: islbh__swap_def Let_def split: if_splits)

declare islbh__siftdown_floyd.simps [simp del]

function islbh__siftdown ::
  "'a islbh_binary_heap \<Rightarrow> nat \<Rightarrow> 'a islbh_binary_heap outcome" where
  "islbh__siftdown h idx =
     (let left = idx * 2 + 1; right = left + 1 in
      if left < length_h h then
        (if right < length_h h \<and> size (nodes h) \<le> right then OutOfBounds
         else
           (let higher =
                  (if right < length_h h
                      \<and> cmp h (item (nodes h ! right)) (item (nodes h ! left)) < 0
                   then right else left)
            in if size (nodes h) \<le> higher then OutOfBounds
               else if cmp h (item (nodes h ! idx)) (item (nodes h ! higher)) < 0 then Returns h
               else
                 (case islbh__swap h idx higher of
                    OutOfBounds \<Rightarrow> OutOfBounds
                  | Returns h' \<Rightarrow> islbh__siftdown h' higher)))
      else Returns h)"
  by pat_completeness auto
termination
  by (relation "measure (\<lambda>(h, idx). length_h h - idx)")
    (auto simp: islbh__swap_def Let_def split: if_splits)

declare islbh__siftdown.simps [simp del]

text \<open>The \<open>for\<close> loop of \<open>islbh__floyd_algorithm\<close>, from its counter \<open>i\<close> on.\<close>

function islbh__floyd_algorithm_loop ::
  "'a islbh_binary_heap \<Rightarrow> nat \<Rightarrow> nat \<Rightarrow> 'a islbh_binary_heap outcome" where
  "islbh__floyd_algorithm_loop h n i =
     (if i < n then
        (case islbh__siftdown h (n - i - 1) of
           OutOfBounds \<Rightarrow> OutOfBounds
         | Returns h' \<Rightarrow> islbh__floyd_algorithm_loop h' n (i + 1))
      else Returns h)"
  by pat_completeness auto
termination
  by (relation "measure (\<lambda>(h, n, i). n - i)") auto

declare islbh__floyd_algorithm_loop.simps [simp del]

definition islbh__floyd_algorithm ::
  "'a islbh_binary_heap \<Rightarrow> 'a islbh_binary_heap outcome" where
  "islbh__floyd_algorithm h = (let n = length_h h div 2 in islbh__floyd_algorithm_loop h n 0)"

subsection \<open>The public operations\<close>

text \<open>
  \<open>islbh_enqueue\<close> returns the address of the slot where the item settled, or \<open>NULL\<close>
  when growing failed.
\<close>

definition islbh_enqueue ::
  "'a allocator \<Rightarrow> 'a islbh_binary_heap \<Rightarrow> 'a
     \<Rightarrow> ('a node_ptr option \<times> 'a islbh_binary_heap) outcome" where
  "islbh_enqueue ra h it =
     (let idx = length_h h;
          node = \<lparr>item = it, index = idx\<rparr>;
          (err, h1) =
            (if allocated h \<le> length_h h
             then islbh__grow ra h (allocated h * 2 mod SIZE_MOD)
             else (ISLBH_ERROR_OK, h))
      in if err \<noteq> ISLBH_ERROR_OK then Returns (None, h1)
         else if size (nodes h1) \<le> idx then OutOfBounds
         else
           (let h2 = h1\<lparr>nodes := (nodes h1)[idx := node]\<rparr>;
                h3 = h2\<lparr>length_h := length_h h2 + 1\<rparr>
            in case islbh__siftup h3 idx of
                 OutOfBounds \<Rightarrow> OutOfBounds
               | Returns (h4, idx') \<Rightarrow> Returns (Some (Slot idx'), h4)))"

text \<open>\<open>islbh_dequeue\<close> returns the item of the root, or \<open>NULL\<close> (\<open>None\<close>) on an empty heap.\<close>

definition islbh_dequeue ::
  "'a islbh_binary_heap \<Rightarrow> ('a option \<times> 'a islbh_binary_heap) outcome" where
  "islbh_dequeue h =
     (if length_h h = 0 then Returns (None, h)
      else if length_h h = 1 then
        (let h1 = h\<lparr>length_h := 0\<rparr>
         in if size (nodes h1) \<le> 0 then OutOfBounds
            else Returns (Some (item (nodes h1 ! 0)), h1))
      else
        (if size (nodes h) \<le> 0 then OutOfBounds
         else
           (let it = item (nodes h ! 0);
                h1 = h\<lparr>length_h := length_h h - 1\<rparr>
            in case islbh__swap h1 0 (length_h h1) of
                 OutOfBounds \<Rightarrow> OutOfBounds
               | Returns h2 \<Rightarrow>
                   (case islbh__siftdown_floyd h2 0 of
                      OutOfBounds \<Rightarrow> OutOfBounds
                    | Returns h3 \<Rightarrow> Returns (Some it, h3)))))"

text \<open>
  \<open>islbh_peek\<close> returns whatever item pointer slot 0 holds; the code has no test of
  \<open>length\<close> and no path that returns \<open>NULL\<close> of its own.
\<close>

definition islbh_peek :: "'a islbh_binary_heap \<Rightarrow> 'a option outcome" where
  "islbh_peek h =
     (if size (nodes h) \<le> 0 then OutOfBounds else Returns (Some (item (nodes h ! 0))))"

text \<open>Reading \<open>*node\<close> through a non-null node pointer.\<close>

definition deref :: "'a islbh_binary_heap \<Rightarrow> 'a node_ptr \<Rightarrow> 'a islbh_node outcome" where
  "deref h p =
     (case p of
        Slot k \<Rightarrow> (if k < size (nodes h) then Returns (nodes h ! k) else OutOfBounds)
      | Foreign nd \<Rightarrow> Returns nd)"

definition islbh_update ::
  "'a islbh_binary_heap \<Rightarrow> 'a node_ptr \<Rightarrow> 'a islbh_binary_heap outcome" where
  "islbh_update h node =
     (case deref h node of
        OutOfBounds \<Rightarrow> OutOfBounds
      | Returns nd \<Rightarrow>
          (case islbh__siftup h (index nd) of
             OutOfBounds \<Rightarrow> OutOfBounds
           | Returns (h1, idx) \<Rightarrow> islbh__siftdown h1 idx))"

definition islbh_remove ::
  "'a islbh_binary_heap \<Rightarrow> 'a node_ptr option
     \<Rightarrow> (islbh_error \<times> 'a islbh_binary_heap) outcome" where
  "islbh_remove h node =
     (case node of
        None \<Rightarrow> Returns (ISLBH_ERROR_NULL_NODE, h)
      | Some p \<Rightarrow>
          (case deref h p of
             OutOfBounds \<Rightarrow> OutOfBounds
           | Returns nd \<Rightarrow>
               if length_h h \<le> index nd \<or> Slot (index nd) \<noteq> p
               then Returns (ISLBH_ERROR_NOT_EXIST, h)
               else
                 (let idx = index nd;
                      h1 = h\<lparr>length_h := length_h h - 1\<rparr>;
                      lst = length_h h1
                  in case (if idx \<noteq> lst then islbh__swap h1 idx lst else Returns h1) of
                       OutOfBounds \<Rightarrow> OutOfBounds
                     | Returns h2 \<Rightarrow>
                         (case islbh_update h2 (Slot idx) of
                            OutOfBounds \<Rightarrow> OutOfBounds
                          | Returns h3 \<Rightarrow> Returns (ISLBH_ERROR_OK, h3)))))"

text \<open>
  The \<open>while\<close> loop at the head of \<open>islbh_batchenq\<close>, on the local variable
  \<open>allocated\<close>; \<open>target\<close> is the value of \<open>length + count\<close>. \<open>None\<close>: the loop never exits.
\<close>

partial_function (option) islbh_batchenq_while :: "nat \<Rightarrow> nat \<Rightarrow> nat option" where
  "islbh_batchenq_while alloc target =
     (if alloc < target then islbh_batchenq_while (alloc * 2 mod SIZE_MOD) target
      else Some alloc)"

declare islbh_batchenq_while.simps [code]

text \<open>
  The first \<open>for\<close> loop of \<open>islbh_batchenq\<close>, from its counter \<open>i\<close> on. The array of
  caller items is the function \<open>items\<close>: \<open>items i\<close> is the object at \<open>items + i*itemsize\<close>.
\<close>

function islbh_batchenq_for ::
  "'a islbh_binary_heap \<Rightarrow> nat \<Rightarrow> (nat \<Rightarrow> 'a) \<Rightarrow> nat \<Rightarrow> nat \<Rightarrow> 'a islbh_binary_heap outcome" where
  "islbh_batchenq_for h len items cnt i =
     (if i < cnt then
        (let pos = (len + i) mod SIZE_MOD;
             node = \<lparr>item = items i, index = pos\<rparr>
         in if size (nodes h) \<le> pos then OutOfBounds
            else islbh_batchenq_for (h\<lparr>nodes := (nodes h)[pos := node]\<rparr>) len items cnt (i + 1))
      else Returns h)"
  by pat_completeness auto
termination
  by (relation "measure (\<lambda>(h, len, items, cnt, i). cnt - i)") auto

declare islbh_batchenq_for.simps [simp del]

text \<open>
  \<open>islbh_batchenq\<close>. \<open>want_nodes\<close> says whether the caller passed a buffer for the node
  copies (\<open>nodes != NULL\<close>); the copies are the third component of the result. The outer
  \<open>None\<close> means that the call does not return.
\<close>

definition islbh_batchenq ::
  "'a allocator \<Rightarrow> 'a islbh_binary_heap \<Rightarrow> (nat \<Rightarrow> 'a) \<Rightarrow> nat \<Rightarrow> bool
     \<Rightarrow> (islbh_error \<times> 'a islbh_binary_heap \<times> 'a islbh_node list) outcome option" where
  "islbh_batchenq ra h items cnt want_nodes =
     (let len = length_h h in
      case islbh_batchenq_while (allocated h) ((len + cnt) mod SIZE_MOD) of
        None \<Rightarrow> None
      | Some alloc \<Rightarrow>
          Some
            (let (err, h1) =
                   (if allocated h < alloc then islbh__grow ra h alloc
                    else (ISLBH_ERROR_OK, h))
             in if err \<noteq> ISLBH_ERROR_OK then Returns (ISLBH_ERROR_BAD_ALLOC, h1, [])
                else
                  (case islbh_batchenq_for h1 len items cnt 0 of
                     OutOfBounds \<Rightarrow> OutOfBounds
                   | Returns h2 \<Rightarrow>
                       (let copies =
                              (if want_nodes
                               then map (\<lambda>i. nodes h2 ! ((len + i) mod SIZE_MOD)) [0..<cnt]
                               else []);
                            h3 = h2\<lparr>length_h := (len + cnt) mod SIZE_MOD\<rparr>
                        in case islbh__floyd_algorithm h3 of
                             OutOfBounds \<Rightarrow> OutOfBounds
                           | Returns h4 \<Rightarrow> Returns (ISLBH_ERROR_OK, h4, copies)))))"

subsection \<open>Invariants and the comparator contract\<close>

definition parent :: "nat \<Rightarrow> nat" where
  "parent i = (i - 1) div 2"

text \<open>The fields agree with the array, and \<open>allocated\<close> is a value of type \<open>size_t\<close>.\<close>

definition wf_heap :: "'a islbh_binary_heap \<Rightarrow> bool" where
  "wf_heap h \<longleftrightarrow>
     length_h h \<le> allocated h \<and> allocated h = size (nodes h) \<and> allocated h < SIZE_MOD"

definition positions_ok :: "'a islbh_binary_heap \<Rightarrow> bool" where
  "positions_ok h \<longleftrightarrow> (\<forall>i \<in> {0..<length_h h}. index (nodes h ! i) = i)"

definition heap_order :: "'a islbh_binary_heap \<Rightarrow> bool" where
  "heap_order h \<longleftrightarrow>
     (\<forall>i \<in> {1..<length_h h}. 0 \<le> cmp h (item (nodes h ! i)) (item (nodes h ! parent i)))"

text \<open>
  The node array is an object, so that it has at most \<open>PTRDIFF_MAX\<close> bytes: fewer than
  \<open>2 ^ 59\<close> slots.
\<close>

definition array_fits :: "'a islbh_binary_heap \<Rightarrow> bool" where
  "array_fits h \<longleftrightarrow> NODE_SIZE * size (nodes h) \<le> PTRDIFF_MAX"

definition invariants :: "'a islbh_binary_heap \<Rightarrow> bool" where
  "invariants h \<longleftrightarrow> wf_heap h \<and> array_fits h \<and> positions_ok h \<and> heap_order h"

text \<open>
  A consistent total preorder given by a three-way comparison: the sign of \<open>c a b\<close> is
  the opposite of the sign of \<open>c b a\<close>, and "not after" is transitive.
\<close>

definition total_preorder :: "('a \<Rightarrow> 'a \<Rightarrow> int) \<Rightarrow> bool" where
  "total_preorder c \<longleftrightarrow>
     (\<forall>a b. (c a b < 0) = (0 < c b a)) \<and>
     (\<forall>a b d. c a b \<le> 0 \<and> c b d \<le> 0 \<longrightarrow> c a d \<le> 0)"

text \<open>The items of the active slots, as a multiset.\<close>

definition active_items :: "'a islbh_binary_heap \<Rightarrow> 'a multiset" where
  "active_items h = mset (map item (take (length_h h) (nodes h)))"

subsection \<open>Client loops\<close>

text \<open>A sequence of \<open>islbh_enqueue\<close> calls, one per item, with the pointers they return.\<close>

fun enqueue_all ::
  "'a allocator \<Rightarrow> 'a islbh_binary_heap \<Rightarrow> 'a list
     \<Rightarrow> ('a node_ptr option list \<times> 'a islbh_binary_heap) outcome" where
  "enqueue_all ra h [] = Returns ([], h)"
| "enqueue_all ra h (x # xs) =
     (case islbh_enqueue ra h x of
        OutOfBounds \<Rightarrow> OutOfBounds
      | Returns (p, h') \<Rightarrow>
          (case enqueue_all ra h' xs of
             OutOfBounds \<Rightarrow> OutOfBounds
           | Returns (ps, h'') \<Rightarrow> Returns (p # ps, h'')))"

subsection \<open>Auxiliary notions for the proofs\<close>

text \<open>The item stored in slot \<open>i\<close>.\<close>

abbreviation key :: "'a islbh_binary_heap \<Rightarrow> nat \<Rightarrow> 'a" where
  "key h i \<equiv> item (nodes h ! i)"

definition higher_child :: "'a islbh_binary_heap \<Rightarrow> nat \<Rightarrow> nat" where
  "higher_child h idx =
     (if idx * 2 + 2 < length_h h
         \<and> cmp h (item (nodes h ! (idx * 2 + 2))) (item (nodes h ! (idx * 2 + 1))) < 0
      then idx * 2 + 2 else idx * 2 + 1)"

definition down_pre :: "'a islbh_binary_heap \<Rightarrow> nat \<Rightarrow> nat \<Rightarrow> bool" where
  "down_pre h m k \<longleftrightarrow>
     (\<forall>i. 0 < i \<and> i < length_h h \<and> m \<le> parent i \<and> parent i \<noteq> k
          \<longrightarrow> 0 \<le> cmp h (key h i) (key h (parent i))) \<and>
     (\<forall>c. 0 < k \<and> m \<le> parent k \<and> 0 < c \<and> c < length_h h \<and> parent c = k
          \<longrightarrow> 0 \<le> cmp h (key h c) (key h (parent k)))"

definition ord_from :: "'a islbh_binary_heap \<Rightarrow> nat \<Rightarrow> bool" where
  "ord_from h m \<longleftrightarrow>
     (\<forall>i. 0 < i \<and> i < length_h h \<and> m \<le> parent i
          \<longrightarrow> 0 \<le> cmp h (key h i) (key h (parent i)))"

definition except_at :: "'a islbh_binary_heap \<Rightarrow> nat \<Rightarrow> bool" where
  "except_at h k \<longleftrightarrow>
     (\<forall>i. 0 < i \<and> i < length_h h \<and> i \<noteq> k \<and> parent i \<noteq> k
          \<longrightarrow> 0 \<le> cmp h (key h i) (key h (parent i))) \<and>
     (\<forall>c. 0 < k \<and> 0 < c \<and> c < length_h h \<and> parent c = k
          \<longrightarrow> 0 \<le> cmp h (key h c) (key h (parent k)))"

definition children_ok :: "'a islbh_binary_heap \<Rightarrow> nat \<Rightarrow> bool" where
  "children_ok h k \<longleftrightarrow>
     (\<forall>c. 0 < c \<and> c < length_h h \<and> parent c = k
          \<longrightarrow> 0 \<le> cmp h (key h c) (key h (parent c)))"

definition same_heap :: "'a islbh_binary_heap \<Rightarrow> 'a islbh_binary_heap \<Rightarrow> bool" where
  "same_heap h h' \<longleftrightarrow>
     length_h h' = length_h h \<and> allocated h' = allocated h \<and> cmp h' = cmp h
     \<and> size (nodes h') = size (nodes h) \<and> active_items h' = active_items h
     \<and> (positions_ok h \<longrightarrow> positions_ok h')"

text \<open>Heap order between every slot below the children of \<open>k\<close> and its parent.\<close>

definition order_below :: "'a islbh_binary_heap \<Rightarrow> nat \<Rightarrow> bool" where
  "order_below h k \<longleftrightarrow>
     (\<forall>j. 0 < j \<and> j < length_h h \<and> k < parent j
          \<longrightarrow> 0 \<le> cmp h (key h j) (key h (parent j)))"

text \<open>
  Heap order at every active slot that is not a child of \<open>k\<close>: the state in which
  \<open>islbh_dequeue\<close> calls \<open>islbh__siftdown_floyd\<close>, with \<open>k = 0\<close>.
\<close>

definition heap_order_except :: "'a islbh_binary_heap \<Rightarrow> nat \<Rightarrow> bool" where
  "heap_order_except h k \<longleftrightarrow>
     (\<forall>j \<in> {1..<length_h h}. parent j \<noteq> k
          \<longrightarrow> 0 \<le> cmp h (item (nodes h ! j)) (item (nodes h ! parent j)))"


subsection \<open>Concrete instances\<close>

text \<open>
  Integer items compared by their difference, an allocator that always succeeds and
  hands out zeroed slots, and a heap of capacity one as \<open>islbh_create\<close> returns it.
\<close>

definition ex_cmp :: "int \<Rightarrow> int \<Rightarrow> int" where
  "ex_cmp a b = a - b"

definition ex_alloc :: "int allocator" where
  "ex_alloc = \<lparr>serve = (\<lambda>n. Some (\<lambda>i. \<lparr>item = 0, index = 0\<rparr>)), zero_frees = False\<rparr>"

definition ex_heap :: "int islbh_binary_heap" where
  "ex_heap = \<lparr>length_h = 0, allocated = 1, cmp = ex_cmp, nodes = [\<lparr>item = 0, index = 0\<rparr>]\<rparr>"

text \<open>The heap after enqueueing 5, 3, 8, 1, 4 into \<open>ex_heap\<close>.\<close>

definition ex_heap5 :: "int islbh_binary_heap" where
  "ex_heap5 =
     \<lparr>length_h = 5, allocated = 8, cmp = ex_cmp,
      nodes = [\<lparr>item = 1, index = 0\<rparr>, \<lparr>item = 3, index = 1\<rparr>, \<lparr>item = 8, index = 2\<rparr>,
        \<lparr>item = 5, index = 3\<rparr>, \<lparr>item = 4, index = 4\<rparr>, \<lparr>item = 0, index = 0\<rparr>,
        \<lparr>item = 0, index = 0\<rparr>, \<lparr>item = 0, index = 0\<rparr>]\<rparr>"


definition ex_alloc_nonzero :: "int allocator" where
  "ex_alloc_nonzero =
     \<lparr>serve = (\<lambda>n. if n = 0 then None else serve ex_alloc n), zero_frees = False\<rparr>"


text \<open>The heap that \<open>islbh_create\<close> returns for \<open>prealloc = 0\<close>, a full heap of one item, and a heap of three.\<close>

definition ex_heap0 :: "int islbh_binary_heap" where
  "ex_heap0 = \<lparr>length_h = 0, allocated = 0, cmp = ex_cmp, nodes = []\<rparr>"

definition ex_full :: "int islbh_binary_heap" where
  "ex_full = \<lparr>length_h = 1, allocated = 1, cmp = ex_cmp, nodes = [\<lparr>item = 7, index = 0\<rparr>]\<rparr>"

definition ex_heap3 :: "int islbh_binary_heap" where
  "ex_heap3 =
     \<lparr>length_h = 3, allocated = 3, cmp = ex_cmp,
      nodes = [\<lparr>item = 1, index = 0\<rparr>, \<lparr>item = 2, index = 1\<rparr>, \<lparr>item = 3, index = 2\<rparr>]\<rparr>"

text \<open>Items compared by their tens only, and a heap whose two items tie.\<close>

definition ex_tens :: "int \<Rightarrow> int \<Rightarrow> int" where
  "ex_tens a b = a div 10 - b div 10"

definition ex_tie :: "int islbh_binary_heap" where
  "ex_tie =
     \<lparr>length_h = 2, allocated = 2, cmp = ex_tens,
      nodes = [\<lparr>item = 10, index = 0\<rparr>, \<lparr>item = 11, index = 1\<rparr>]\<rparr>"

text \<open>
  A heap of four whose root and last slot are out of order, a heap of four whose root alone
  is out of order, four items for a batch, and the heap that holds them in order.
\<close>

definition ex_heap4 :: "int islbh_binary_heap" where
  "ex_heap4 =
     \<lparr>length_h = 4, allocated = 4, cmp = ex_cmp,
      nodes = [\<lparr>item = 5, index = 0\<rparr>, \<lparr>item = 7, index = 1\<rparr>, \<lparr>item = 9, index = 2\<rparr>,
        \<lparr>item = 4, index = 3\<rparr>]\<rparr>"

definition ex_heap4r :: "int islbh_binary_heap" where
  "ex_heap4r =
     \<lparr>length_h = 4, allocated = 4, cmp = ex_cmp,
      nodes = [\<lparr>item = 8, index = 0\<rparr>, \<lparr>item = 3, index = 1\<rparr>, \<lparr>item = 5, index = 2\<rparr>,
        \<lparr>item = 4, index = 3\<rparr>]\<rparr>"

definition ex_items :: "nat \<Rightarrow> int" where
  "ex_items i = [9, 2, 7, 0] ! i"

definition ex_heap_b :: "int islbh_binary_heap" where
  "ex_heap_b =
     \<lparr>length_h = 4, allocated = 4, cmp = ex_cmp,
      nodes = [\<lparr>item = 0, index = 0\<rparr>, \<lparr>item = 2, index = 1\<rparr>, \<lparr>item = 7, index = 2\<rparr>,
        \<lparr>item = 9, index = 3\<rparr>]\<rparr>"


section \<open>Proofs\<close>

lemma swap_Returns_iff:
  "(\<exists>h'. islbh__swap h i j = Returns h') \<longleftrightarrow> i < size (nodes h) \<and> j < size (nodes h)"
  by (simp add: islbh__swap_def Let_def)

lemma swap_frame:
  assumes "islbh__swap h i j = Returns h'"
  shows "length_h h' = length_h h" "allocated h' = allocated h" "cmp h' = cmp h"
    "size (nodes h') = size (nodes h)" "i < size (nodes h)" "j < size (nodes h)"
  using assms by (auto simp: islbh__swap_def Let_def split: if_splits)

lemma swap_nth:
  assumes "islbh__swap h i j = Returns h'" and "k < size (nodes h)"
  shows "nodes h' ! k =
    (if k = j then \<lparr>item = key h i, index = j\<rparr>
     else if k = i then \<lparr>item = key h j, index = i\<rparr>
     else nodes h ! k)"
  using assms by (auto simp: islbh__swap_def Let_def nth_list_update split: if_splits)

lemma swap_key:
  assumes "islbh__swap h i j = Returns h'" and "k < size (nodes h)"
  shows "key h' k = (if k = j then key h i else if k = i then key h j else key h k)"
  using swap_nth [OF assms] by simp

lemma swap_index:
  assumes "islbh__swap h i j = Returns h'" and "k < size (nodes h)"
  shows "index (nodes h' ! k) = (if k = j then j else if k = i then i else index (nodes h ! k))"
  using swap_nth [OF assms] by simp

lemma higher_child_cases:
  "higher_child h k = k * 2 + 1 \<or> higher_child h k = k * 2 + 2 \<and> k * 2 + 2 < length_h h"
  by (simp add: higher_child_def)

lemma higher_child_less: "k * 2 + 1 < length_h h \<Longrightarrow> higher_child h k < length_h h"
  by (simp add: higher_child_def)

lemma higher_child_greater: "k < higher_child h k"
  by (simp add: higher_child_def)

lemma siftup_unfold:
  "islbh__siftup h k =
     (if 0 < k then
        (if k < size (nodes h) then
           (if cmp h (key h k) (key h ((k - 1) div 2)) < 0 then
              (case islbh__swap h k ((k - 1) div 2) of
                 OutOfBounds \<Rightarrow> OutOfBounds
               | Returns h1 \<Rightarrow> islbh__siftup h1 ((k - 1) div 2))
            else Returns (h, k))
         else OutOfBounds)
      else Returns (h, k))"
  by (subst islbh__siftup.simps) (simp add: Let_def split: outcome.splits)

lemma siftdown_unfold:
  "islbh__siftdown h k =
     (if k * 2 + 1 < length_h h then
        (if k * 2 + 2 < length_h h \<and> size (nodes h) \<le> k * 2 + 2 then OutOfBounds
         else if size (nodes h) \<le> higher_child h k then OutOfBounds
         else if cmp h (key h k) (key h (higher_child h k)) < 0 then Returns h
         else
           (case islbh__swap h k (higher_child h k) of
              OutOfBounds \<Rightarrow> OutOfBounds
            | Returns h1 \<Rightarrow> islbh__siftdown h1 (higher_child h k)))
      else Returns h)"
  by (subst islbh__siftdown.simps) (auto simp: Let_def higher_child_def split: outcome.splits)

lemma siftdown_floyd_unfold:
  "islbh__siftdown_floyd h k =
     (if k * 2 + 1 < length_h h then
        (if k * 2 + 2 < length_h h \<and> size (nodes h) \<le> k * 2 + 2 then OutOfBounds
         else
           (case islbh__swap h k (higher_child h k) of
              OutOfBounds \<Rightarrow> OutOfBounds
            | Returns h1 \<Rightarrow> islbh__siftdown_floyd h1 (higher_child h k)))
      else
        (case islbh__siftup h k of
           OutOfBounds \<Rightarrow> OutOfBounds
         | Returns (h1, _) \<Rightarrow> Returns h1))"
  by (subst islbh__siftdown_floyd.simps) (auto simp: Let_def higher_child_def split: outcome.splits)

text \<open>Induction over the runs that return.\<close>

lemma siftup_induct [consumes 1, case_names stop step]:
  assumes run: "islbh__siftup h k = Returns (h', k')"
    and stop: "\<And>h k. k = 0 \<or> k < size (nodes h) \<and> 0 \<le> cmp h (key h k) (key h ((k - 1) div 2))
                 \<Longrightarrow> P h k h k"
    and step: "\<And>h k h1 h' k'. 0 < k \<Longrightarrow> k < size (nodes h)
                 \<Longrightarrow> cmp h (key h k) (key h ((k - 1) div 2)) < 0
                 \<Longrightarrow> islbh__swap h k ((k - 1) div 2) = Returns h1
                 \<Longrightarrow> islbh__siftup h1 ((k - 1) div 2) = Returns (h', k')
                 \<Longrightarrow> P h1 ((k - 1) div 2) h' k' \<Longrightarrow> P h k h' k'"
  shows "P h k h' k'"
  using run
proof (induction k arbitrary: h rule: less_induct)
  case (less k)
  show ?case
  proof (cases "0 < k \<and> k < size (nodes h) \<and> cmp h (key h k) (key h ((k - 1) div 2)) < 0")
    case True
    with less.prems obtain h1 where sw: "islbh__swap h k ((k - 1) div 2) = Returns h1"
      and rec: "islbh__siftup h1 ((k - 1) div 2) = Returns (h', k')"
      by (subst (asm) siftup_unfold) (auto split: outcome.splits)
    from True have "(k - 1) div 2 < k" by arith
    from step [OF _ _ _ sw rec less.IH [OF this rec]] True show ?thesis by simp
  next
    case False
    with less.prems have "h' = h \<and> k' = k \<and> (k = 0 \<or> k < size (nodes h))"
      by (subst (asm) siftup_unfold) (auto split: if_splits)
    with False stop [of k h] show ?thesis by auto
  qed
qed

lemma siftdown_induct [consumes 1, case_names leaf stop step]:
  assumes run: "islbh__siftdown h k = Returns h'"
    and leaf: "\<And>h k. \<not> k * 2 + 1 < length_h h \<Longrightarrow> P h k h"
    and stop: "\<And>h k. k * 2 + 1 < length_h h \<Longrightarrow> higher_child h k < size (nodes h)
                 \<Longrightarrow> cmp h (key h k) (key h (higher_child h k)) < 0 \<Longrightarrow> P h k h"
    and step: "\<And>h k h1 h'. k * 2 + 1 < length_h h \<Longrightarrow> higher_child h k < size (nodes h)
                 \<Longrightarrow> 0 \<le> cmp h (key h k) (key h (higher_child h k))
                 \<Longrightarrow> islbh__swap h k (higher_child h k) = Returns h1
                 \<Longrightarrow> islbh__siftdown h1 (higher_child h k) = Returns h'
                 \<Longrightarrow> P h1 (higher_child h k) h' \<Longrightarrow> P h k h'"
  shows "P h k h'"
  using run
proof (induction "length_h h - k" arbitrary: h k rule: less_induct)
  case less
  show ?case
  proof (cases "k * 2 + 1 < length_h h")
    case False
    with less.prems have "h' = h" by (subst (asm) siftdown_unfold) simp
    with leaf False show ?thesis by simp
  next
    case True
    note l = this
    with less.prems have hb: "higher_child h k < size (nodes h)"
      by (subst (asm) siftdown_unfold) (auto split: if_splits)
    show ?thesis
    proof (cases "cmp h (key h k) (key h (higher_child h k)) < 0")
      case True
      with less.prems l hb have "h' = h"
        by (subst (asm) siftdown_unfold) (auto split: if_splits)
      with stop [OF l hb True] show ?thesis by simp
    next
      case False
      with less.prems l hb obtain h1 where
        sw: "islbh__swap h k (higher_child h k) = Returns h1"
        and rec: "islbh__siftdown h1 (higher_child h k) = Returns h'"
        by (subst (asm) siftdown_unfold) (auto split: if_splits outcome.splits)
      have "length_h h1 - higher_child h k < length_h h - k"
        using swap_frame(1) [OF sw] higher_child_less [OF l] higher_child_greater [of k h]
        by simp
      from less.hyps [OF this rec] step [OF l hb _ sw rec] False show ?thesis by simp
    qed
  qed
qed

lemma siftdown_floyd_induct [consumes 1, case_names leaf step]:
  assumes run: "islbh__siftdown_floyd h k = Returns h'"
    and leaf: "\<And>h k h' k'. \<not> k * 2 + 1 < length_h h \<Longrightarrow> islbh__siftup h k = Returns (h', k')
                 \<Longrightarrow> P h k h'"
    and step: "\<And>h k h1 h'. k * 2 + 1 < length_h h \<Longrightarrow> higher_child h k < size (nodes h)
                 \<Longrightarrow> islbh__swap h k (higher_child h k) = Returns h1
                 \<Longrightarrow> islbh__siftdown_floyd h1 (higher_child h k) = Returns h'
                 \<Longrightarrow> P h1 (higher_child h k) h' \<Longrightarrow> P h k h'"
  shows "P h k h'"
  using run
proof (induction "length_h h - k" arbitrary: h k rule: less_induct)
  case less
  show ?case
  proof (cases "k * 2 + 1 < length_h h")
    case False
    with less.prems obtain k' where "islbh__siftup h k = Returns (h', k')"
      by (subst (asm) siftdown_floyd_unfold) (auto split: outcome.splits)
    with leaf False show ?thesis by simp
  next
    case True
    note l = this
    with less.prems obtain h1 where
      sw: "islbh__swap h k (higher_child h k) = Returns h1"
      and rec: "islbh__siftdown_floyd h1 (higher_child h k) = Returns h'"
      by (subst (asm) siftdown_floyd_unfold) (auto split: if_splits outcome.splits)
    have "length_h h1 - higher_child h k < length_h h - k"
      using swap_frame(1) [OF sw] higher_child_less [OF l] higher_child_greater [of k h]
      by simp
    from less.hyps [OF this rec] step [OF l swap_frame(6) [OF sw] sw rec] show ?thesis by simp
  qed
qed

lemma siftup_frame:
  "islbh__siftup h k = Returns (h', k') \<Longrightarrow>
     length_h h' = length_h h \<and> allocated h' = allocated h \<and> cmp h' = cmp h
     \<and> size (nodes h') = size (nodes h) \<and> k' \<le> k"
  by (induction rule: siftup_induct) (auto dest: swap_frame)


lemma siftdown_floyd_frame:
  "islbh__siftdown_floyd h k = Returns h' \<Longrightarrow>
     length_h h' = length_h h \<and> allocated h' = allocated h \<and> cmp h' = cmp h
     \<and> size (nodes h') = size (nodes h)"
  by (induction rule: siftdown_floyd_induct) (auto dest: swap_frame siftup_frame)

lemma dequeue_length:
  "islbh_dequeue h = Returns (Some x, h') \<Longrightarrow> length_h h' < length_h h"
  by (auto simp: islbh_dequeue_def Let_def split: if_splits outcome.splits
      dest!: siftdown_floyd_frame swap_frame(1))

lemma parent_less: "0 < i \<Longrightarrow> parent i < i"
  by (simp add: parent_def)

lemma parent_child_iff: "0 < c \<and> parent c = k \<longleftrightarrow> c = k * 2 + 1 \<or> c = k * 2 + 2"
  unfolding parent_def by presburger

lemma parent_higher_child: "parent (higher_child h k) = k"
  by (simp add: higher_child_def parent_def)

lemma tp_sym: "total_preorder c \<Longrightarrow> (c a b < 0) = (0 < c b a)"
  unfolding total_preorder_def by blast

lemma tp_flip: "total_preorder c \<Longrightarrow> (0 \<le> c a b) = (c b a \<le> 0)"
  using tp_sym [of c a b] by linarith

lemma tp_refl: "total_preorder c \<Longrightarrow> c a a = 0"
  using tp_sym [of c a a] by linarith

lemma tp_le_trans: "total_preorder c \<Longrightarrow> c a b \<le> 0 \<Longrightarrow> c b d \<le> 0 \<Longrightarrow> c a d \<le> 0"
  unfolding total_preorder_def by blast

lemma tp_ge_trans: "total_preorder c \<Longrightarrow> 0 \<le> c a b \<Longrightarrow> 0 \<le> c b d \<Longrightarrow> 0 \<le> c a d"
  using tp_flip [of c] tp_le_trans [of c d b a] by blast

lemma tp_lt_ge: "total_preorder c \<Longrightarrow> c x y < 0 \<Longrightarrow> 0 \<le> c s y \<Longrightarrow> 0 \<le> c s x"
  using tp_ge_trans [of c s y x] tp_sym [of c x y] by simp

lemma tp_lt_ge_strict: "total_preorder c \<Longrightarrow> c x y < 0 \<Longrightarrow> 0 \<le> c s y \<Longrightarrow> c x s < 0"
proof (rule ccontr)
  assume tp: "total_preorder c" and xy: "c x y < 0" and sy: "0 \<le> c s y" and n: "\<not> c x s < 0"
  from n tp_flip [OF tp, of x s] have "c s x \<le> 0" by simp
  moreover from sy tp_flip [OF tp, of s y] have "c y s \<le> 0" by simp
  ultimately have "c y x \<le> 0" using tp_le_trans [OF tp] by blast
  with xy tp_sym [OF tp, of x y] show False by simp
qed

lemma higher_child_min:
  assumes tp: "total_preorder (cmp h)" and "0 < i" "i < length_h h" "parent i = k"
  shows "0 \<le> cmp h (key h i) (key h (higher_child h k))"
proof -
  from assms have i: "i = k * 2 + 1 \<or> i = k * 2 + 2" using parent_child_iff [of i k] by simp
  show ?thesis
  proof (cases "k * 2 + 2 < length_h h
      \<and> cmp h (key h (k * 2 + 2)) (key h (k * 2 + 1)) < 0")
    case True
    then have hc: "higher_child h k = k * 2 + 2" by (simp add: higher_child_def)
    from True tp_sym [OF tp] have "0 \<le> cmp h (key h (k * 2 + 1)) (key h (k * 2 + 2))" by simp
    with i hc tp_refl [OF tp] show ?thesis by auto
  next
    case False
    then have hc: "higher_child h k = k * 2 + 1" by (auto simp: higher_child_def)
    from False i assms(3) have "i = k * 2 + 2 \<Longrightarrow> 0 \<le> cmp h (key h (k * 2 + 2)) (key h (k * 2 + 1))"
      by auto
    with i hc tp_refl [OF tp] show ?thesis by auto
  qed
qed

lemma swap_key_active:
  assumes "islbh__swap h a b = Returns h1" "length_h h \<le> size (nodes h)" "i < length_h h"
  shows "key h1 i = (if i = b then key h a else if i = a then key h b else key h i)"
  using swap_key [OF assms(1), of i] assms(2,3) by simp

lemma siftdown_ord:
  assumes "islbh__siftdown h k = Returns h'" "total_preorder (cmp h)"
    "length_h h \<le> size (nodes h)" "down_pre h m k"
  shows "ord_from h' m"
  using assms
proof (induction rule: siftdown_induct)
  case (leaf h k)
  have "parent i \<noteq> k" if "0 < i" "i < length_h h" for i
    using that leaf.hyps parent_child_iff [of i k] by auto
  with leaf.prems(3) show ?case unfolding down_pre_def ord_from_def by blast
next
  case (stop h k)
  let ?c = "higher_child h k"
  note tp = stop.prems(1)
  have "0 \<le> cmp h (key h i) (key h (parent i))" if i: "0 < i" "i < length_h h" "m \<le> parent i" for i
  proof (cases "parent i = k")
    case False
    with i stop.prems(3) show ?thesis unfolding down_pre_def by blast
  next
    case True
    from higher_child_min [OF tp i(1,2) True] tp_lt_ge [OF tp stop.hyps(3)] True
    show ?thesis by simp
  qed
  then show ?case unfolding ord_from_def by blast
next
  case (step h k h1 h')
  let ?c = "higher_child h k"
  note tp = step.prems(1) and sz = step.prems(2) and pre = step.prems(3)
  note sw = step.hyps(4)
  have fr: "length_h h1 = length_h h" "cmp h1 = cmp h" "size (nodes h1) = size (nodes h)"
    using swap_frame [OF sw] by simp_all
  have c: "?c < length_h h" "k < ?c" "parent ?c = k" "0 < ?c"
    using higher_child_less [OF step.hyps(1)] higher_child_greater [of k h] parent_higher_child [of h k]
    by auto
  have k: "k < length_h h" using c by simp
  note key1 = swap_key_active [OF sw sz]
  have "down_pre h1 m ?c"
    unfolding down_pre_def
  proof (intro conjI allI impI)
    fix i assume i: "0 < i \<and> i < length_h h1 \<and> m \<le> parent i \<and> parent i \<noteq> ?c"
    then have il: "i < length_h h" and pl: "parent i < length_h h"
      using fr parent_less [of i] by auto
    consider "i = ?c" | "i = k" | "i \<noteq> ?c" "i \<noteq> k" "parent i = k" | "i \<noteq> ?c" "i \<noteq> k" "parent i \<noteq> k"
      by blast
    then show "0 \<le> cmp h1 (key h1 i) (key h1 (parent i))"
    proof cases
      case 1
      with c k key1 [of ?c] key1 [of k] step.hyps(3) fr show ?thesis by simp
    next
      case 2
      with i have pk: "parent k \<noteq> k" "parent k \<noteq> ?c" "0 < k" "m \<le> parent k"
        using parent_less [of k] c by auto
      from pre pk c have "0 \<le> cmp h (key h ?c) (key h (parent k))"
        unfolding down_pre_def by blast
      with 2 pk key1 [of k] key1 [of "parent k"] k pl fr c(2) show ?thesis by simp
    next
      case 3
      from higher_child_min [OF tp _ il 3(3)] i have "0 \<le> cmp h (key h i) (key h ?c)" by simp
      with 3 key1 [of i] key1 [of k] il k fr c show ?thesis by simp
    next
      case 4
      with pre i il have "0 \<le> cmp h (key h i) (key h (parent i))"
        unfolding down_pre_def by blast
      with 4 i key1 [of i] key1 [of "parent i"] il pl fr show ?thesis by simp
    qed
  next
    fix j assume j: "0 < ?c \<and> m \<le> parent ?c \<and> 0 < j \<and> j < length_h h1 \<and> parent j = ?c"
    then have jl: "j < length_h h" "j \<noteq> k" "j \<noteq> ?c" "m \<le> parent j" "parent j \<noteq> k"
      using fr parent_less [of j] c by auto
    with pre j have "0 \<le> cmp h (key h j) (key h ?c)" unfolding down_pre_def by auto
    with jl c k key1 [of j] key1 [of k] fr show "0 \<le> cmp h1 (key h1 j) (key h1 (parent ?c))"
      by simp
  qed
  with step.IH fr tp sz show ?case by simp
qed

lemma heap_order_iff: "heap_order h \<longleftrightarrow> ord_from h 0"
  unfolding heap_order_def ord_from_def by (auto simp: Suc_le_eq)

lemma heap_orderI:
  assumes "except_at h k" "children_ok h k"
    "k = 0 \<or> length_h h \<le> k \<or> 0 \<le> cmp h (key h k) (key h (parent k))"
  shows "heap_order h"
  unfolding heap_order_iff ord_from_def
proof (intro allI impI)
  fix i assume i: "0 < i \<and> i < length_h h \<and> 0 \<le> parent i"
  consider "i = k" | "i \<noteq> k" "parent i = k" | "i \<noteq> k" "parent i \<noteq> k" by blast
  then show "0 \<le> cmp h (key h i) (key h (parent i))"
  proof cases
    case 1 with i assms(3) show ?thesis by auto
  next
    case 2 with i assms(2) show ?thesis unfolding children_ok_def by blast
  next
    case 3 with i assms(1) show ?thesis unfolding except_at_def by blast
  qed
qed



lemma siftup_step:
  assumes tp: "total_preorder (cmp h)" and sz: "length_h h \<le> size (nodes h)"
    and k: "0 < k" "k < length_h h" and lt: "cmp h (key h k) (key h (parent k)) < 0"
    and sw: "islbh__swap h k (parent k) = Returns h1"
    and pre: "except_at h k"
  shows "except_at h1 (parent k) \<and> children_ok h1 (parent k)"
proof -
  let ?p = "parent k"
  have fr: "length_h h1 = length_h h" "cmp h1 = cmp h"
    using swap_frame [OF sw] by simp_all
  have p: "?p < k" "?p < length_h h" using parent_less [OF k(1)] k(2) by auto
  note key1 = swap_key_active [OF sw sz]
  have kp: "key h1 k = key h ?p" "key h1 ?p = key h k"
    using key1 [of k] key1 [of ?p] k p by auto
  have other: "key h1 i = key h i" if "i < length_h h" "i \<noteq> k" "i \<noteq> ?p" for i
    using key1 [of i] that by simp
  have ex1: "0 \<le> cmp h (key h i) (key h (parent i))"
    if "0 < i" "i < length_h h" "i \<noteq> k" "parent i \<noteq> k" for i
    using pre that unfolding except_at_def by blast
  have gp: "0 \<le> cmp h (key h c) (key h ?p)" if "0 < c" "c < length_h h" "parent c = k" for c
    using pre that k unfolding except_at_def by blast
  have A: "0 \<le> cmp h1 (key h1 i) (key h1 (parent i))"
    if i: "0 < i" "i < length_h h" "i \<noteq> ?p" "parent i \<noteq> ?p" for i
  proof -
    from i have ik: "i \<noteq> k" by auto
    have pl: "parent i < length_h h" using parent_less [OF i(1)] i(2) by simp
    show ?thesis
    proof (cases "parent i = k")
      case True
      with gp [OF i(1,2)] other [OF i(2) ik i(3)] kp fr show ?thesis by simp
    next
      case False
      with ex1 [OF i(1,2) ik] other [OF i(2) ik i(3)] other [OF pl False i(4)] fr
      show ?thesis by simp
    qed
  qed
  have B: "0 \<le> cmp h1 (key h1 c) (key h1 (parent ?p))"
    if c: "0 < ?p" "0 < c" "c < length_h h" "parent c = ?p" for c
  proof -
    have pp: "parent ?p < ?p" using parent_less [OF c(1)] .
    then have z: "key h1 (parent ?p) = key h (parent ?p)" using other [of "parent ?p"] p by simp
    have yz: "0 \<le> cmp h (key h ?p) (key h (parent ?p))"
      using ex1 [of ?p] c(1) p pp by simp
    show ?thesis
    proof (cases "c = k")
      case True with kp z yz fr show ?thesis by simp
    next
      case False
      with c p have "c \<noteq> ?p" using parent_less [OF c(2)] by simp
      with other [OF c(3) False] have "key h1 c = key h c" by simp
      moreover have "0 \<le> cmp h (key h c) (key h ?p)"
        using ex1 [OF c(2,3) False] c(4) p by simp
      ultimately show ?thesis using z yz fr tp_ge_trans [OF tp] by metis
    qed
  qed
  have C: "0 \<le> cmp h1 (key h1 c) (key h1 (parent c))"
    if c: "0 < c" "c < length_h h" "parent c = ?p" for c
  proof (cases "c = k")
    case True with kp lt tp_sym [OF tp, of "key h k" "key h ?p"] fr show ?thesis by simp
  next
    case False
    with c p have "c \<noteq> ?p" using parent_less [OF c(1)] by simp
    with other [OF c(2) False] have "key h1 c = key h c" by simp
    moreover have "0 \<le> cmp h (key h c) (key h ?p)"
      using ex1 [OF c(1,2) False] c(3) p by simp
    ultimately show ?thesis using tp_lt_ge [OF tp lt] kp c(3) fr by simp
  qed
  show ?thesis unfolding except_at_def children_ok_def using A B C fr by simp
qed

lemma siftup_heap_order:
  assumes "islbh__siftup h k = Returns (h', k')" "total_preorder (cmp h)"
    "length_h h \<le> size (nodes h)" "k < length_h h" "except_at h k" "children_ok h k"
  shows "heap_order h'"
  using assms
proof (induction rule: siftup_induct)
  case (stop h k)
  then show ?case using heap_orderI [of h k] by (auto simp: parent_def)
next
  case (step h k h1 h' k')
  have fr: "length_h h1 = length_h h" "cmp h1 = cmp h" "size (nodes h1) = size (nodes h)"
    using swap_frame [OF step.hyps(4)] by simp_all
  from siftup_step [OF step.prems(1,2) step.hyps(1) step.prems(3)]
    step.hyps(3,4) step.prems(4)
  have "except_at h1 (parent k) \<and> children_ok h1 (parent k)" by (simp add: parent_def)
  moreover have "parent k < length_h h1" using parent_less [OF step.hyps(1)] step.prems(3) fr by simp
  ultimately show ?case using step.IH fr step.prems(1,2) by (simp add: parent_def)
qed


lemma floyd_step:
  assumes tp: "total_preorder (cmp h)" and sz: "length_h h \<le> size (nodes h)"
    and l: "k * 2 + 1 < length_h h"
    and sw: "islbh__swap h k (higher_child h k) = Returns h1"
    and pre: "except_at h k"
  shows "except_at h1 (higher_child h k)"
proof -
  let ?c = "higher_child h k"
  have fr: "length_h h1 = length_h h" "cmp h1 = cmp h"
    using swap_frame [OF sw] by simp_all
  have c: "?c < length_h h" "k < ?c" "parent ?c = k" "0 < ?c"
    using higher_child_less [OF l] higher_child_greater [of k h] parent_higher_child [of h k]
    by auto
  have k: "k < length_h h" using c by simp
  note key1 = swap_key_active [OF sw sz]
  have kc: "key h1 k = key h ?c" "key h1 ?c = key h k"
    using key1 [of k] key1 [of ?c] k c by auto
  have other: "key h1 i = key h i" if "i < length_h h" "i \<noteq> k" "i \<noteq> ?c" for i
    using key1 [of i] that by simp
  have ex1: "0 \<le> cmp h (key h i) (key h (parent i))"
    if "0 < i" "i < length_h h" "i \<noteq> k" "parent i \<noteq> k" for i
    using pre that unfolding except_at_def by blast
  have A: "0 \<le> cmp h1 (key h1 i) (key h1 (parent i))"
    if i: "0 < i" "i < length_h h" "i \<noteq> ?c" "parent i \<noteq> ?c" for i
  proof -
    have pl: "parent i < length_h h" using parent_less [OF i(1)] i(2) by simp
    consider "i = k" | "i \<noteq> k" "parent i = k" | "i \<noteq> k" "parent i \<noteq> k" by blast
    then show ?thesis
    proof cases
      case 1
      with i have pk: "parent k \<noteq> k" "parent k \<noteq> ?c" "0 < k"
        using parent_less [of k] c by auto
      from pre pk c have "0 \<le> cmp h (key h ?c) (key h (parent k))"
        unfolding except_at_def by blast
      with 1 pk kc other [of "parent k"] pl fr show ?thesis by simp
    next
      case 2
      from higher_child_min [OF tp i(1,2) 2(2)] have "0 \<le> cmp h (key h i) (key h ?c)" .
      with 2 other [OF i(2) 2(1) i(3)] kc fr show ?thesis by simp
    next
      case 3
      with ex1 [OF i(1,2)] other [OF i(2) 3(1) i(3)] other [OF pl 3(2) i(4)] fr
      show ?thesis by simp
    qed
  qed
  have B: "0 \<le> cmp h1 (key h1 j) (key h1 (parent ?c))"
    if j: "0 < j" "j < length_h h" "parent j = ?c" for j
  proof -
    from j c have jn: "j \<noteq> k" "j \<noteq> ?c" "parent j \<noteq> k" using parent_less [OF j(1)] by auto
    from ex1 [OF j(1,2) jn(1,3)] j(3) have "0 \<le> cmp h (key h j) (key h ?c)" by simp
    with other [OF j(2) jn(1,2)] kc c fr show ?thesis by simp
  qed
  show ?thesis unfolding except_at_def using A B fr by simp
qed

lemma siftdown_floyd_heap_order:
  assumes "islbh__siftdown_floyd h k = Returns h'" "total_preorder (cmp h)"
    "length_h h \<le> size (nodes h)" "k < length_h h" "except_at h k"
  shows "heap_order h'"
  using assms
proof (induction rule: siftdown_floyd_induct)
  case (leaf h k h' k')
  have co: "children_ok h k"
    unfolding children_ok_def
  proof (intro allI impI)
    fix c assume "0 < c \<and> c < length_h h \<and> parent c = k"
    with parent_child_iff [of c k] leaf.hyps(1)
    show "0 \<le> cmp h (key h c) (key h (parent c))" by auto
  qed
  show ?case by (rule siftup_heap_order [OF leaf.hyps(2) leaf.prems co])
next
  case (step h k h1 h')
  have fr: "length_h h1 = length_h h" "cmp h1 = cmp h" "size (nodes h1) = size (nodes h)"
    using swap_frame [OF step.hyps(3)] by simp_all
  from floyd_step [OF step.prems(1,2) step.hyps(1,3) step.prems(4)]
  have "except_at h1 (higher_child h k)" .
  with step.IH fr step.prems(1,2) higher_child_less [OF step.hyps(1)] show ?case by simp
qed

lemma same_heap_refl: "same_heap h h"
  by (simp add: same_heap_def)

lemma same_heap_trans: "same_heap h h1 \<Longrightarrow> same_heap h1 h2 \<Longrightarrow> same_heap h h2"
  by (simp add: same_heap_def)

lemma swap_active_items:
  assumes sw: "islbh__swap h a b = Returns h1"
    and a: "a < length_h h" and b: "b < length_h h" and sz: "length_h h \<le> size (nodes h)"
  shows "active_items h1 = active_items h"
proof -
  let ?n = "length_h h"
  let ?ls = "map item (take ?n (nodes h))"
  have fr: "length_h h1 = ?n" "size (nodes h1) = size (nodes h)"
    using swap_frame [OF sw] by simp_all
  have len: "length ?ls = ?n" using sz by simp
  have "map item (take ?n (nodes h1)) = ?ls[b := ?ls ! a, a := ?ls ! b]"
  proof (rule nth_equalityI)
    show "length (map item (take ?n (nodes h1))) = length (?ls[b := ?ls ! a, a := ?ls ! b])"
      using fr sz by simp
  next
    fix i assume "i < length (map item (take ?n (nodes h1)))"
    then have i: "i < ?n" using fr sz by simp
    from swap_key_active [OF sw sz i] i a b sz
    show "map item (take ?n (nodes h1)) ! i = ?ls[b := ?ls ! a, a := ?ls ! b] ! i"
      by (auto simp: fr nth_list_update)
  qed
  moreover have "mset (?ls[b := ?ls ! a, a := ?ls ! b]) = mset ?ls"
    using mset_swap [of a ?ls b] a b len by simp
  ultimately show ?thesis by (simp add: active_items_def fr)
qed

lemma swap_positions_ok:
  assumes sw: "islbh__swap h a b = Returns h1"
    and a: "a < length_h h" and b: "b < length_h h" and sz: "length_h h \<le> size (nodes h)"
    and pos: "positions_ok h"
  shows "positions_ok h1"
  unfolding positions_ok_def
proof
  fix i assume "i \<in> {0..<length_h h1}"
  then have i: "i < length_h h" using swap_frame(1) [OF sw] by simp
  with sz have "i < size (nodes h)" by simp
  from swap_index [OF sw this] pos i show "index (nodes h1 ! i) = i"
    by (auto simp: positions_ok_def)
qed

lemma swap_same_heap:
  assumes "islbh__swap h a b = Returns h1" "a < length_h h" "b < length_h h"
    "length_h h \<le> size (nodes h)"
  shows "same_heap h h1"
  unfolding same_heap_def
  using swap_frame [OF assms(1)] swap_active_items [OF assms] swap_positions_ok [OF assms]
  by simp

lemma siftup_same_heap:
  assumes "islbh__siftup h k = Returns (h', k')" "k < length_h h" "length_h h \<le> size (nodes h)"
  shows "same_heap h h'"
  using assms
proof (induction rule: siftup_induct)
  case (stop h k)
  show ?case by (rule same_heap_refl)
next
  case (step h k h1 h' k')
  have p: "(k - 1) div 2 < length_h h" using step.hyps(1) step.prems(1) by arith
  from swap_same_heap [OF step.hyps(4) step.prems(1) p step.prems(2)]
  have s1: "same_heap h h1" .
  with step.IH p step.prems(2) have "same_heap h1 h'" by (simp add: same_heap_def)
  with s1 show ?case by (rule same_heap_trans)
qed

lemma siftdown_same_heap:
  assumes "islbh__siftdown h k = Returns h'" "length_h h \<le> size (nodes h)"
  shows "same_heap h h'"
  using assms
proof (induction rule: siftdown_induct)
  case (leaf h k)
  show ?case by (rule same_heap_refl)
next
  case (stop h k)
  show ?case by (rule same_heap_refl)
next
  case (step h k h1 h')
  have c: "higher_child h k < length_h h" "k < length_h h"
    using higher_child_less [OF step.hyps(1)] step.hyps(1) by auto
  from swap_same_heap [OF step.hyps(4) c(2) c(1) step.prems(1)]
  have s1: "same_heap h h1" .
  with step.IH step.prems(1) have "same_heap h1 h'" by (simp add: same_heap_def)
  with s1 show ?case by (rule same_heap_trans)
qed

lemma siftdown_floyd_same_heap:
  assumes "islbh__siftdown_floyd h k = Returns h'" "k < length_h h"
    "length_h h \<le> size (nodes h)"
  shows "same_heap h h'"
  using assms
proof (induction rule: siftdown_floyd_induct)
  case (leaf h k h' k')
  then show ?case using siftup_same_heap by blast
next
  case (step h k h1 h')
  have c: "higher_child h k < length_h h"
    using higher_child_less [OF step.hyps(1)] .
  from swap_same_heap [OF step.hyps(3) step.prems(1) c step.prems(2)]
  have s1: "same_heap h h1" .
  with step.IH c step.prems(2) have "same_heap h1 h'" by (simp add: same_heap_def)
  with s1 show ?case by (rule same_heap_trans)
qed

lemma siftup_total:
  "k = 0 \<or> k < size (nodes h) \<Longrightarrow> \<exists>h' k'. islbh__siftup h k = Returns (h', k')"
proof (induction k arbitrary: h rule: less_induct)
  case (less k)
  show ?case
  proof (cases "0 < k \<and> cmp h (key h k) (key h ((k - 1) div 2)) < 0")
    case False
    with less.prems show ?thesis by (subst siftup_unfold) auto
  next
    case True
    with less.prems have k: "0 < k" "k < size (nodes h)" "(k - 1) div 2 < k" by auto
    then obtain h1 where sw: "islbh__swap h k ((k - 1) div 2) = Returns h1"
      using swap_Returns_iff [of h k "(k - 1) div 2"] by auto
    from less.IH [OF k(3), of h1] swap_frame(4) [OF sw] k
    obtain h' k' where "islbh__siftup h1 ((k - 1) div 2) = Returns (h', k')" by auto
    with True k sw show ?thesis by (subst siftup_unfold) simp
  qed
qed

lemma siftdown_total:
  "length_h h \<le> size (nodes h) \<Longrightarrow> \<exists>h'. islbh__siftdown h k = Returns h'"
proof (induction "length_h h - k" arbitrary: h k rule: less_induct)
  case less
  show ?case
  proof (cases "k * 2 + 1 < length_h h")
    case False
    then show ?thesis by (subst siftdown_unfold) simp
  next
    case True
    note l = this
    have c: "higher_child h k < length_h h" "k < higher_child h k"
      using higher_child_less [OF l] higher_child_greater [of k h] by auto
    show ?thesis
    proof (cases "cmp h (key h k) (key h (higher_child h k)) < 0")
      case True
      with l c less.prems show ?thesis by (subst siftdown_unfold) simp
    next
      case False
      from c less.prems obtain h1 where sw: "islbh__swap h k (higher_child h k) = Returns h1"
        using swap_Returns_iff [of h k "higher_child h k"] by auto
      have "length_h h1 - higher_child h k < length_h h - k"
        using swap_frame(1) [OF sw] c by simp
      from less.hyps [OF this] swap_frame [OF sw] less.prems
      obtain h' where "islbh__siftdown h1 (higher_child h k) = Returns h'" by auto
      with False l c less.prems sw show ?thesis by (subst siftdown_unfold) simp
    qed
  qed
qed

lemma siftdown_floyd_total:
  "length_h h \<le> size (nodes h) \<Longrightarrow> k = 0 \<or> k < size (nodes h)
     \<Longrightarrow> \<exists>h'. islbh__siftdown_floyd h k = Returns h'"
proof (induction "length_h h - k" arbitrary: h k rule: less_induct)
  case less
  show ?case
  proof (cases "k * 2 + 1 < length_h h")
    case False
    from siftup_total [OF less.prems(2)] obtain h' k' where
      "islbh__siftup h k = Returns (h', k')" by blast
    with False show ?thesis by (subst siftdown_floyd_unfold) simp
  next
    case True
    note l = this
    have c: "higher_child h k < length_h h" "k < higher_child h k"
      using higher_child_less [OF l] higher_child_greater [of k h] by auto
    from c less.prems obtain h1 where sw: "islbh__swap h k (higher_child h k) = Returns h1"
      using swap_Returns_iff [of h k "higher_child h k"] by auto
    have "length_h h1 - higher_child h k < length_h h - k"
      using swap_frame(1) [OF sw] c by simp
    from less.hyps [OF this] swap_frame [OF sw] less.prems c
    obtain h' where "islbh__siftdown_floyd h1 (higher_child h k) = Returns h'" by auto
    with l c less.prems sw show ?thesis by (subst siftdown_floyd_unfold) simp
  qed
qed

lemma root_min:
  assumes ho: "heap_order h" and tp: "total_preorder (cmp h)"
  shows "i < length_h h \<Longrightarrow> cmp h (key h 0) (key h i) \<le> 0"
proof (induction i rule: less_induct)
  case (less i)
  show ?case
  proof (cases "i = 0")
    case True
    with tp_refl [OF tp] show ?thesis by simp
  next
    case False
    then have p: "parent i < i" using parent_less by simp
    with less have "cmp h (key h 0) (key h (parent i)) \<le> 0" by simp
    moreover from ho False less.prems have "0 \<le> cmp h (key h i) (key h (parent i))"
      unfolding heap_order_def by simp
    then have "cmp h (key h (parent i)) (key h i) \<le> 0" using tp_flip [OF tp] by simp
    ultimately show ?thesis using tp_le_trans [OF tp] by blast
  qed
qed

lemma active_items_nth:
  assumes "length_h h \<le> size (nodes h)" "y \<in># active_items h"
  shows "\<exists>i < length_h h. y = key h i"
proof -
  from assms(2) have "y \<in> set (map item (take (length_h h) (nodes h)))"
    by (simp add: active_items_def)
  then obtain i where "i < length (map item (take (length_h h) (nodes h)))"
    "map item (take (length_h h) (nodes h)) ! i = y"
    unfolding in_set_conv_nth by blast
  with assms(1) show ?thesis by auto
qed

lemma dequeue_one:
  assumes inv: "invariants h" and n: "length_h h = 1"
  shows "islbh_dequeue h = Returns (Some (key h 0), h\<lparr>length_h := 0\<rparr>)"
    and "invariants (h\<lparr>length_h := 0\<rparr>)"
    and "active_items h = {#key h 0#}" and "active_items (h\<lparr>length_h := 0\<rparr>) = {#}"
proof -
  from inv n have sz: "0 < size (nodes h)" by (auto simp: invariants_def wf_heap_def array_fits_def)
  then have "nodes h \<noteq> []" by auto
  with n show "islbh_dequeue h = Returns (Some (key h 0), h\<lparr>length_h := 0\<rparr>)"
    by (simp add: islbh_dequeue_def Let_def)
  from inv show "invariants (h\<lparr>length_h := 0\<rparr>)"
    by (simp add: invariants_def wf_heap_def array_fits_def positions_ok_def heap_order_def)
  from sz have "take 1 (nodes h) = [nodes h ! 0]"
    by (cases "nodes h") simp_all
  with n show "active_items h = {#key h 0#}" by (simp add: active_items_def)
  show "active_items (h\<lparr>length_h := 0\<rparr>) = {#}" by (simp add: active_items_def)
qed

lemma dequeue_swap:
  assumes inv: "invariants h" and n: "2 \<le> length_h h"
    and sw: "islbh__swap (h\<lparr>length_h := length_h h - 1\<rparr>) 0 (length_h h - 1) = Returns h2"
  shows "length_h h2 = length_h h - 1" "cmp h2 = cmp h" "allocated h2 = allocated h"
    "size (nodes h2) = size (nodes h)" "positions_ok h2" "except_at h2 0"
    "active_items h = add_mset (key h 0) (active_items h2)"
proof -
  let ?n = "length_h h"
  let ?h1 = "h\<lparr>length_h := ?n - 1\<rparr>"
  from inv have wf: "?n \<le> size (nodes h)" "allocated h = size (nodes h)"
    and pos: "positions_ok h" and ho: "heap_order h"
    by (simp_all add: invariants_def wf_heap_def array_fits_def)
  from swap_frame [OF sw]
  show fr: "length_h h2 = ?n - 1" "cmp h2 = cmp h" "allocated h2 = allocated h"
    "size (nodes h2) = size (nodes h)" by simp_all
  have nth2: "nodes h2 ! i =
      (if i = ?n - 1 then \<lparr>item = key h 0, index = ?n - 1\<rparr>
       else if i = 0 then \<lparr>item = key h (?n - 1), index = 0\<rparr> else nodes h ! i)"
    if "i < ?n" for i
    using swap_nth [OF sw, of i] that wf by simp
  show "positions_ok h2"
    unfolding positions_ok_def
  proof
    fix i assume "i \<in> {0..<length_h h2}"
    with fr have "i < ?n - 1" by simp
    with nth2 [of i] pos show "index (nodes h2 ! i) = i"
      by (auto simp: positions_ok_def)
  qed
  show "except_at h2 0"
    unfolding except_at_def
  proof (intro conjI allI impI)
    fix i assume i: "0 < i \<and> i < length_h h2 \<and> i \<noteq> 0 \<and> parent i \<noteq> 0"
    with fr have il: "i < ?n - 1" "parent i < ?n - 1" "0 < parent i"
      using parent_less [of i] by auto
    with nth2 [of i] nth2 [of "parent i"] i have "key h2 i = key h i" "key h2 (parent i) = key h (parent i)"
      by auto
    moreover from ho i il have "0 \<le> cmp h (key h i) (key h (parent i))"
      unfolding heap_order_def by simp
    ultimately show "0 \<le> cmp h2 (key h2 i) (key h2 (parent i))" using fr by simp
  qed simp
  let ?ls = "map item (take ?n (nodes h))"
  let ?A = "take (?n - 1) ?ls"
  have len: "length ?ls = ?n" using wf by simp
  have lsn: "?ls = ?A @ [?ls ! (?n - 1)]"
    using take_Suc_conv_app_nth [of "?n - 1" ?ls] len n by simp
  have A0: "?A ! 0 = key h 0" "0 < length ?A" using n wf by auto
  have "map item (take (?n - 1) (nodes h2)) = ?A[0 := ?ls ! (?n - 1)]"
  proof (rule nth_equalityI)
    show "length (map item (take (?n - 1) (nodes h2))) = length (?A[0 := ?ls ! (?n - 1)])"
      using fr wf by simp
  next
    fix i assume "i < length (map item (take (?n - 1) (nodes h2)))"
    then have i: "i < ?n - 1" using fr wf by simp
    have l: "i < length (nodes h2)" "i < length (nodes h)" "?n - 1 < length (nodes h)"
      using i wf fr n by auto
    have "map item (take (?n - 1) (nodes h2)) ! i = key h2 i" using i l by simp
    also have "\<dots> = (if i = 0 then key h (?n - 1) else key h i)"
      using nth2 [of i] i by simp
    also have "\<dots> = ?A[0 := ?ls ! (?n - 1)] ! i"
      using i l wf n by (simp add: nth_list_update)
    finally show "map item (take (?n - 1) (nodes h2)) ! i = ?A[0 := ?ls ! (?n - 1)] ! i" .
  qed
  then have "active_items h2 = mset (?A[0 := ?ls ! (?n - 1)])"
    by (simp add: active_items_def fr)
  also have "\<dots> = add_mset (?ls ! (?n - 1)) (mset ?A - {#?A ! 0#})"
    using A0(2) by (simp add: mset_update)
  finally have eq: "active_items h2 = add_mset (?ls ! (?n - 1)) (mset ?A - {#?A ! 0#})" .
  have mem: "?A ! 0 \<in># mset ?A" using A0(2) by (rule nth_mem_mset)
  have "add_mset (?A ! 0) (active_items h2)
      = add_mset (?ls ! (?n - 1)) (add_mset (?A ! 0) (mset ?A - {#?A ! 0#}))"
    unfolding eq by (rule add_mset_commute)
  also have "\<dots> = add_mset (?ls ! (?n - 1)) (mset ?A)"
    unfolding insert_DiffM [OF mem] ..
  finally have "add_mset (key h 0) (active_items h2) = add_mset (?ls ! (?n - 1)) (mset ?A)"
    unfolding A0(1) .
  moreover have "active_items h = add_mset (?ls ! (?n - 1)) (mset ?A)"
    unfolding active_items_def by (subst lsn) simp
  ultimately show "active_items h = add_mset (key h 0) (active_items h2)" by simp
qed

lemma dequeue_correct:
  assumes inv: "invariants h" and tp: "total_preorder (cmp h)" and n: "0 < length_h h"
  shows "\<exists>h'. islbh_dequeue h = Returns (Some (key h 0), h') \<and> invariants h'
      \<and> cmp h' = cmp h \<and> allocated h' = allocated h \<and> length_h h' = length_h h - 1
      \<and> active_items h = add_mset (key h 0) (active_items h')"
proof (cases "length_h h = 1")
  case True
  from dequeue_one [OF inv True] True show ?thesis by simp
next
  case False
  with n have n2: "2 \<le> length_h h" by simp
  let ?h1 = "h\<lparr>length_h := length_h h - 1\<rparr>"
  from inv have wf: "length_h h \<le> size (nodes h)" "allocated h = size (nodes h)"
    "allocated h < SIZE_MOD" "NODE_SIZE * size (nodes h) \<le> PTRDIFF_MAX"
    by (simp_all add: invariants_def wf_heap_def array_fits_def)
  from wf n2 obtain h2 where sw: "islbh__swap ?h1 0 (length_h h - 1) = Returns h2"
    using swap_Returns_iff [of ?h1 0 "length_h h - 1"] by auto
  note d = dequeue_swap [OF inv n2 sw]
  have sz2: "length_h h2 \<le> size (nodes h2)" "0 < length_h h2" using d wf n2 by auto
  from siftdown_floyd_total [OF sz2(1), of 0] obtain h3 where
    fl: "islbh__siftdown_floyd h2 0 = Returns h3" by auto
  have tp2: "total_preorder (cmp h2)" using tp d by simp
  from siftdown_floyd_heap_order [OF fl tp2 sz2 d(6)] have ho3: "heap_order h3" .
  from siftdown_floyd_same_heap [OF fl sz2(2,1)] have sh: "same_heap h2 h3" .
  have "invariants h3"
    using ho3 sh d wf by (simp add: invariants_def wf_heap_def array_fits_def same_heap_def)
  moreover have "nodes h \<noteq> []" using n2 wf by auto
  then have "islbh_dequeue h = Returns (Some (key h 0), h3)"
    using n2 sw fl by (simp add: islbh_dequeue_def Let_def)
  ultimately show ?thesis using sh d by (simp add: same_heap_def)
qed

lemma dequeue_empty: "length_h h = 0 \<Longrightarrow> islbh_dequeue h = Returns (None, h)"
  by (simp add: islbh_dequeue_def)

text \<open>The number of slots in a block of \<open>sizeof(islbh_node) * n\<close> bytes, computed in \<open>size_t\<close>.\<close>

lemma slots_mod: "NODE_SIZE * n mod SIZE_MOD div NODE_SIZE = n mod 2 ^ 60"
proof -
  have e: "SIZE_MOD = NODE_SIZE * 2 ^ 60" by (simp add: SIZE_MOD_def NODE_SIZE_def)
  have "NODE_SIZE * n mod SIZE_MOD = NODE_SIZE * (n mod 2 ^ 60)"
    unfolding e by (rule mult_mod_right [symmetric])
  then show ?thesis by (simp add: NODE_SIZE_def)
qed

lemma bytes_mod: "NODE_SIZE * n mod SIZE_MOD = NODE_SIZE * (n mod 2 ^ 60)"
proof -
  have e: "SIZE_MOD = NODE_SIZE * 2 ^ 60" by (simp add: SIZE_MOD_def NODE_SIZE_def)
  show ?thesis unfolding e by (rule mult_mod_right [symmetric])
qed

lemma grow_cases:
  assumes "islbh__grow ra h na = (e, h1)"
  shows "(e = ISLBH_ERROR_BAD_ALLOC \<and> h1 = h)
     \<or> (e = ISLBH_ERROR_BAD_ALLOC \<and> h1 = h\<lparr>nodes := []\<rparr> \<and> zero_frees ra \<and> na mod 2 ^ 60 = 0)
     \<or> (e = ISLBH_ERROR_OK \<and> length_h h1 = length_h h \<and> cmp h1 = cmp h
        \<and> allocated h1 = na \<and> size (nodes h1) = na mod 2 ^ 60
        \<and> NODE_SIZE * (na mod 2 ^ 60) \<le> PTRDIFF_MAX
        \<and> (\<forall>i. i < size (nodes h1) \<and> i < size (nodes h) \<longrightarrow> nodes h1 ! i = nodes h ! i))"
proof -
  let ?b = "NODE_SIZE * na mod SIZE_MOD"
  have b: "?b = NODE_SIZE * (na mod 2 ^ 60)" "?b div NODE_SIZE = na mod 2 ^ 60"
    by (rule bytes_mod, rule slots_mod)
  have z: "?b = 0 \<longleftrightarrow> na mod 2 ^ 60 = 0" unfolding b(1) by (simp add: NODE_SIZE_def)
  show ?thesis
  proof (cases "ISLBH_REALLOC ra (nodes h) ?b")
    case Null_kept
    with assms show ?thesis by (simp add: islbh__grow_def)
  next
    case Null_freed
    then have "zero_frees ra \<and> ?b = 0"
      by (simp add: ISLBH_REALLOC_def split: if_splits option.splits)
    with Null_freed assms z show ?thesis by (auto simp: islbh__grow_def)
  next
    case (Block ns)
    then obtain fresh where ns: "ns = take (?b div NODE_SIZE) (nodes h)
        @ map fresh [size (nodes h)..<?b div NODE_SIZE]" and le: "?b \<le> PTRDIFF_MAX"
      by (auto simp: ISLBH_REALLOC_def split: if_splits option.splits)
    from Block assms have h1: "e = ISLBH_ERROR_OK" "h1 = h\<lparr>allocated := na, nodes := ns\<rparr>"
      by (simp_all add: islbh__grow_def)
    have "size ns = na mod 2 ^ 60" unfolding ns b(2) by simp
    moreover have "\<forall>i. i < size ns \<and> i < size (nodes h) \<longrightarrow> ns ! i = nodes h ! i"
      unfolding ns b(2) by (auto simp: nth_append)
    ultimately show ?thesis using h1 le b(1) by simp
  qed
qed

text \<open>
  \<open>islbh_create\<close> with \<open>prealloc = 2 ^ 60\<close> asks for 0 bytes and records a capacity of
  \<open>2 ^ 60\<close> slots over an array that has none.
\<close>

lemma create_wraps:
  "islbh_create True ex_alloc (2 ^ 60) ex_cmp
     = Some \<lparr>length_h = 0, allocated = 2 ^ 60, cmp = ex_cmp, nodes = []\<rparr>"
  by (simp add: islbh_create_def ISLBH_MALLOC_def ex_alloc_def NODE_SIZE_def SIZE_MOD_def)

text \<open>The request of \<open>islbh_enqueue\<close>, twice the capacity, on an array that is an object.\<close>

lemma grow_double_cases:
  assumes wf: "wf_heap h" and af: "array_fits h"
    and g: "islbh__grow ra h (allocated h * 2 mod SIZE_MOD) = (e, h1)"
  shows "(e = ISLBH_ERROR_BAD_ALLOC \<and> h1 = h)
     \<or> (e = ISLBH_ERROR_OK \<and> length_h h1 = length_h h \<and> cmp h1 = cmp h
        \<and> allocated h1 = allocated h * 2 \<and> size (nodes h1) = allocated h * 2
        \<and> array_fits h1 \<and> (\<forall>i<size (nodes h). nodes h1 ! i = nodes h ! i))"
proof -
  let ?a = "allocated h"
  from wf af have a: "?a = size (nodes h)" "?a * 2 < 2 ^ 60"
    by (simp_all add: wf_heap_def array_fits_def NODE_SIZE_def PTRDIFF_MAX_def)
  then have m: "?a * 2 mod SIZE_MOD = ?a * 2" "?a * 2 mod 2 ^ 60 = ?a * 2"
    by (simp_all add: SIZE_MOD_def)
  from grow_cases [OF g] m
  consider "e = ISLBH_ERROR_BAD_ALLOC \<and> h1 = h"
    | "h1 = h\<lparr>nodes := []\<rparr> \<and> e = ISLBH_ERROR_BAD_ALLOC \<and> ?a * 2 = 0"
    | "e = ISLBH_ERROR_OK \<and> length_h h1 = length_h h \<and> cmp h1 = cmp h
        \<and> allocated h1 = ?a * 2 \<and> size (nodes h1) = ?a * 2
        \<and> NODE_SIZE * (?a * 2) \<le> PTRDIFF_MAX
        \<and> (\<forall>i. i < size (nodes h1) \<and> i < size (nodes h) \<longrightarrow> nodes h1 ! i = nodes h ! i)"
    by auto
  then show ?thesis
  proof cases
    case 1
    then show ?thesis by simp
  next
    case 2
    with a(1) have "nodes h = []" by simp
    with 2 show ?thesis by simp
  next
    case 3
    with a(1) show ?thesis by (simp add: array_fits_def)
  qed
qed

text \<open>The heap in which \<open>islbh_enqueue\<close> stores the new node.\<close>

lemma enqueue_grown:
  assumes wf: "wf_heap h" and af: "array_fits h"
    and g: "(if allocated h \<le> length_h h
             then islbh__grow ra h (allocated h * 2 mod SIZE_MOD)
             else (ISLBH_ERROR_OK, h)) = (ISLBH_ERROR_OK, h1)"
  shows "length_h h1 = length_h h" "cmp h1 = cmp h" "allocated h1 = size (nodes h1)"
    "allocated h1 < SIZE_MOD" "allocated h \<le> allocated h1"
    "\<forall>i<length_h h. nodes h1 ! i = nodes h ! i" "array_fits h1"
    "allocated h1 = allocated h \<or> allocated h1 = allocated h * 2"
proof -
  have "length_h h1 = length_h h \<and> cmp h1 = cmp h \<and> allocated h1 = size (nodes h1)
    \<and> allocated h1 < SIZE_MOD \<and> allocated h \<le> allocated h1
    \<and> (\<forall>i<length_h h. nodes h1 ! i = nodes h ! i) \<and> array_fits h1
    \<and> (allocated h1 = allocated h \<or> allocated h1 = allocated h * 2)"
  proof (cases "allocated h \<le> length_h h")
    case False
    with g wf af show ?thesis by (simp add: wf_heap_def)
  next
    case True
    with g have gr: "islbh__grow ra h (allocated h * 2 mod SIZE_MOD) = (ISLBH_ERROR_OK, h1)"
      by simp
    from grow_double_cases [OF wf af gr]
    have c: "length_h h1 = length_h h" "cmp h1 = cmp h" "allocated h1 = allocated h * 2"
      "size (nodes h1) = allocated h * 2" "array_fits h1"
      "\<forall>i<size (nodes h). nodes h1 ! i = nodes h ! i" by simp_all
    from c(4,5) have "allocated h * 2 < SIZE_MOD"
      by (simp add: array_fits_def NODE_SIZE_def PTRDIFF_MAX_def SIZE_MOD_def)
    with c wf show ?thesis by (simp add: wf_heap_def)
  qed
  then show "length_h h1 = length_h h" "cmp h1 = cmp h" "allocated h1 = size (nodes h1)"
    "allocated h1 < SIZE_MOD" "allocated h \<le> allocated h1"
    "\<forall>i<length_h h. nodes h1 ! i = nodes h ! i" "array_fits h1"
    "allocated h1 = allocated h \<or> allocated h1 = allocated h * 2" by blast+
qed

lemma enqueue_stored:
  assumes inv: "invariants h" and tp: "total_preorder (cmp h)"
    and h1: "length_h h1 = length_h h" "cmp h1 = cmp h" "allocated h1 = size (nodes h1)"
      "allocated h1 < SIZE_MOD" "\<forall>i<length_h h. nodes h1 ! i = nodes h ! i"
    and b: "length_h h < size (nodes h1)"
    and h3: "h3 = h1\<lparr>nodes := (nodes h1)[length_h h := \<lparr>item = x, index = length_h h\<rparr>],
                      length_h := length_h h + 1\<rparr>"
  shows "wf_heap h3" "positions_ok h3" "except_at h3 (length_h h)"
    "children_ok h3 (length_h h)" "active_items h3 = add_mset x (active_items h)"
proof -
  let ?n = "length_h h"
  from inv have wf: "?n \<le> size (nodes h)" and pos: "positions_ok h" and ho: "heap_order h"
    by (simp_all add: invariants_def wf_heap_def array_fits_def)
  have nth3: "nodes h3 ! i = nodes h ! i" if "i < ?n" for i
    using that h1(5) b by (simp add: h3)
  have nthn: "nodes h3 ! ?n = \<lparr>item = x, index = ?n\<rparr>" using b by (simp add: h3)
  have fr: "length_h h3 = ?n + 1" "cmp h3 = cmp h" "size (nodes h3) = size (nodes h1)"
    using h1 by (simp_all add: h3)
  show "wf_heap h3" using h1 b by (simp add: wf_heap_def h3)
  show "positions_ok h3"
    unfolding positions_ok_def
  proof
    fix i assume "i \<in> {0..<length_h h3}"
    then have "i < ?n \<or> i = ?n" using fr by auto
    with nth3 [of i] nthn pos show "index (nodes h3 ! i) = i"
      by (auto simp: positions_ok_def)
  qed
  show "except_at h3 ?n"
    unfolding except_at_def
  proof (intro conjI allI impI)
    fix i assume i: "0 < i \<and> i < length_h h3 \<and> i \<noteq> ?n \<and> parent i \<noteq> ?n"
    then have il: "i < ?n" "parent i < ?n" using fr parent_less [of i] by auto
    with ho i have "0 \<le> cmp h (key h i) (key h (parent i))"
      unfolding heap_order_def by simp
    with nth3 [OF il(1)] nth3 [OF il(2)] fr
    show "0 \<le> cmp h3 (key h3 i) (key h3 (parent i))" by simp
  next
    fix c assume "0 < ?n \<and> 0 < c \<and> c < length_h h3 \<and> parent c = ?n"
    with fr parent_child_iff [of c ?n] have False by auto
    then show "0 \<le> cmp h3 (key h3 c) (key h3 (parent ?n))" ..
  qed
  show "children_ok h3 ?n"
    unfolding children_ok_def
  proof (intro allI impI)
    fix c assume "0 < c \<and> c < length_h h3 \<and> parent c = ?n"
    with fr parent_child_iff [of c ?n] have False by auto
    then show "0 \<le> cmp h3 (key h3 c) (key h3 (parent c))" ..
  qed
  have "take ?n (nodes h3) = take ?n (nodes h)"
    using nth_take_lemma [of ?n "nodes h3" "nodes h"] fr b wf nth3 by simp
  moreover have "take (Suc ?n) (nodes h3) = take ?n (nodes h3) @ [nodes h3 ! ?n]"
    using fr b by (simp add: take_Suc_conv_app_nth)
  ultimately show "active_items h3 = add_mset x (active_items h)"
    using nthn fr by (simp add: active_items_def)
qed

lemma enqueue_unfold:
  "islbh_enqueue ra h x =
     (case (if allocated h \<le> length_h h
            then islbh__grow ra h (allocated h * 2 mod SIZE_MOD)
            else (ISLBH_ERROR_OK, h)) of
        (err, h1) \<Rightarrow>
          if err \<noteq> ISLBH_ERROR_OK then Returns (None, h1)
          else if size (nodes h1) \<le> length_h h then OutOfBounds
          else
            (case islbh__siftup
                    (h1\<lparr>nodes := (nodes h1)[length_h h := \<lparr>item = x, index = length_h h\<rparr>],
                        length_h := length_h h1 + 1\<rparr>) (length_h h) of
               OutOfBounds \<Rightarrow> OutOfBounds
             | Returns (h4, idx') \<Rightarrow> Returns (Some (Slot idx'), h4)))"
  by (simp add: islbh_enqueue_def Let_def split: prod.splits)

lemma enqueue_correct:
  assumes inv: "invariants h" and tp: "total_preorder (cmp h)"
    and run: "islbh_enqueue ra h x = Returns (p, h')"
  shows "invariants h' \<and> cmp h' = cmp h \<and> allocated h \<le> allocated h' \<and>
     (case p of
        None \<Rightarrow> h' = h
      | Some q \<Rightarrow> active_items h' = add_mset x (active_items h)
                   \<and> length_h h' = length_h h + 1)"
proof -
  let ?n = "length_h h"
  let ?g = "if allocated h \<le> ?n then islbh__grow ra h (allocated h * 2 mod SIZE_MOD)
            else (ISLBH_ERROR_OK, h)"
  from inv have wf: "wf_heap h" and af: "array_fits h" by (simp_all add: invariants_def)
  obtain e h1 where g: "?g = (e, h1)" by (cases ?g)
  show ?thesis
  proof (cases "e = ISLBH_ERROR_OK")
    case False
    with g have "h1 = h" using grow_double_cases [OF wf af, of ra e h1]
      by (auto split: if_splits)
    with False g run inv show ?thesis by (simp add: enqueue_unfold)
  next
    case True
    with g have g': "?g = (ISLBH_ERROR_OK, h1)" by simp
    let ?h3 = "h1\<lparr>nodes := (nodes h1)[?n := \<lparr>item = x, index = ?n\<rparr>], length_h := ?n + 1\<rparr>"
    from run g' have b: "?n < size (nodes h1)"
      by (auto simp: enqueue_unfold split: if_splits)
    note h1 = enqueue_grown [OF wf af g']
    from run g' b h1(1) obtain idx' where su: "islbh__siftup ?h3 ?n = Returns (h', idx')"
      and p: "p = Some (Slot idx')"
      by (auto simp: enqueue_unfold split: outcome.splits)
    note st = enqueue_stored [OF inv tp h1(1,2,3,4) h1(6) b refl]
    have fr: "length_h ?h3 = ?n + 1" "cmp ?h3 = cmp h" "size (nodes ?h3) = size (nodes h1)"
      "allocated ?h3 = allocated h1"
      using h1 by simp_all
    have sz3: "length_h ?h3 \<le> size (nodes ?h3)" "?n < length_h ?h3" using fr b by simp_all
    have tp3: "total_preorder (cmp ?h3)" using tp fr by simp
    from siftup_heap_order [OF su tp3 sz3 st(3,4)] have ho: "heap_order h'" .
    from siftup_same_heap [OF su sz3(2,1)] have sh: "same_heap ?h3 h'" .
    have "array_fits h'" using sh h1(7) fr unfolding array_fits_def same_heap_def by simp
    then have "invariants h'"
      using ho sh st(1,2) unfolding invariants_def wf_heap_def array_fits_def same_heap_def by simp
    moreover have "cmp h' = cmp h" "allocated h \<le> allocated h'"
      "active_items h' = add_mset x (active_items h)" "length_h h' = ?n + 1"
      using sh st(5) fr h1(5) unfolding same_heap_def by simp_all
    ultimately show ?thesis using p by simp
  qed
qed

lemma enqueue_total:
  assumes wf: "wf_heap h" and af: "array_fits h" and a: "0 < allocated h"
  shows "\<exists>p h'. islbh_enqueue ra h x = Returns (p, h')"
proof -
  let ?n = "length_h h"
  let ?g = "if allocated h \<le> ?n then islbh__grow ra h (allocated h * 2 mod SIZE_MOD)
            else (ISLBH_ERROR_OK, h)"
  obtain e h1 where g: "?g = (e, h1)" by (cases ?g)
  show ?thesis
  proof (cases "e = ISLBH_ERROR_OK")
    case False
    with g show ?thesis by (simp add: enqueue_unfold)
  next
    case True
    with g have g': "?g = (ISLBH_ERROR_OK, h1)" by simp
    note h1 = enqueue_grown [OF wf af g']
    have b: "?n < size (nodes h1)"
    proof (cases "allocated h \<le> ?n")
      case False
      with g' wf show ?thesis by (simp add: wf_heap_def)
    next
      case True
      with g' have "islbh__grow ra h (allocated h * 2 mod SIZE_MOD) = (ISLBH_ERROR_OK, h1)"
        by simp
      from grow_double_cases [OF wf af this] have "size (nodes h1) = allocated h * 2" by simp
      moreover from wf have "length_h h \<le> allocated h" by (simp add: wf_heap_def)
      ultimately show ?thesis using a by linarith
    qed
    let ?h3 = "h1\<lparr>nodes := (nodes h1)[?n := \<lparr>item = x, index = ?n\<rparr>], length_h := length_h h1 + 1\<rparr>"
    have "?n < size (nodes ?h3)" using b by simp
    with siftup_total [of ?n ?h3] obtain h4 k' where "islbh__siftup ?h3 ?n = Returns (h4, k')"
      by blast
    with g True b show ?thesis by (simp add: enqueue_unfold)
  qed
qed

function drain :: "'a islbh_binary_heap \<Rightarrow> 'a list outcome" where
  "drain h =
     (case islbh_dequeue h of
        OutOfBounds \<Rightarrow> OutOfBounds
      | Returns (None, h') \<Rightarrow> Returns []
      | Returns (Some x, h') \<Rightarrow>
          (case drain h' of
             OutOfBounds \<Rightarrow> OutOfBounds
           | Returns xs \<Rightarrow> Returns (x # xs)))"
  by pat_completeness auto

termination
  by (relation "measure length_h") (auto dest: dequeue_length)

declare drain.simps [simp del]

lemma drain_correct:
  assumes "invariants h" "total_preorder (cmp h)"
  shows "\<exists>xs. drain h = Returns xs \<and> mset xs = active_items h
           \<and> sorted_wrt (\<lambda>a b. cmp h a b \<le> 0) xs"
  using assms
proof (induction "length_h h" arbitrary: h)
  case 0
  then have "drain h = Returns []" "active_items h = {#}"
    by (simp_all add: drain.simps [of h] dequeue_empty active_items_def)
  then show ?case by simp
next
  case (Suc n)
  from Suc.hyps(2) have n: "0 < length_h h" by simp
  from dequeue_correct [OF Suc.prems n] obtain h' where
    dq: "islbh_dequeue h = Returns (Some (key h 0), h')" and inv': "invariants h'"
    and c: "cmp h' = cmp h" and l: "length_h h' = length_h h - 1"
    and ai: "active_items h = add_mset (key h 0) (active_items h')" by blast
  have "n = length_h h'" using l Suc.hyps(2) by simp
  moreover have "total_preorder (cmp h')" using Suc.prems(2) c by simp
  ultimately have "\<exists>xs. drain h' = Returns xs \<and> mset xs = active_items h'
      \<and> sorted_wrt (\<lambda>a b. cmp h' a b \<le> 0) xs"
    using Suc.hyps(1) [of h'] inv' by blast
  then obtain xs where
    xs: "drain h' = Returns xs" "mset xs = active_items h'"
    "sorted_wrt (\<lambda>a b. cmp h a b \<le> 0) xs" using c by auto
  have sz: "length_h h \<le> size (nodes h)" and ho: "heap_order h"
    using Suc.prems(1) by (simp_all add: invariants_def wf_heap_def array_fits_def)
  have "cmp h (key h 0) y \<le> 0" if "y \<in> set xs" for y
  proof -
    from that have "y \<in># mset xs" by simp
    with xs(2) ai have "y \<in># active_items h" by simp
    from active_items_nth [OF sz this] obtain i where "i < length_h h" "y = key h i" by blast
    with root_min [OF ho Suc.prems(2)] show ?thesis by simp
  qed
  with xs dq ai have "drain h = Returns (key h 0 # xs) \<and> mset (key h 0 # xs) = active_items h
     \<and> sorted_wrt (\<lambda>a b. cmp h a b \<le> 0) (key h 0 # xs)"
    by (simp add: drain.simps [of h])
  then show ?case by blast
qed

lemma enqueue_all_correct:
  assumes "invariants h" "total_preorder (cmp h)" "enqueue_all ra h xs = Returns (ps, h')"
  shows "invariants h' \<and> cmp h' = cmp h \<and> allocated h \<le> allocated h'
     \<and> length_h h' \<le> length_h h + length xs
     \<and> (None \<notin> set ps \<longrightarrow> active_items h' = active_items h + mset xs)"
  using assms
proof (induction xs arbitrary: h ps)
  case Nil
  then show ?case by simp
next
  case (Cons x xs)
  from Cons.prems(3) obtain p h1 ps' where
    e: "islbh_enqueue ra h x = Returns (p, h1)" and r: "enqueue_all ra h1 xs = Returns (ps', h')"
    and ps: "ps = p # ps'"
    by (auto split: outcome.splits)
  from enqueue_correct [OF Cons.prems(1,2) e]
  have 1: "invariants h1" "cmp h1 = cmp h" "allocated h \<le> allocated h1"
    "p = None \<longrightarrow> h1 = h"
    "p \<noteq> None \<longrightarrow> active_items h1 = add_mset x (active_items h) \<and> length_h h1 = length_h h + 1"
    by (auto split: option.splits)
  from Cons.IH [OF 1(1) _ r] 1(2) Cons.prems(2)
  have 2: "invariants h'" "cmp h' = cmp h1" "allocated h1 \<le> allocated h'"
    "length_h h' \<le> length_h h1 + length xs"
    "None \<notin> set ps' \<longrightarrow> active_items h' = active_items h1 + mset xs" by simp_all
  have "length_h h1 \<le> length_h h + 1" using 1(4,5) by (cases p) auto
  with 1 2 ps show ?case by (cases p) auto
qed

lemma enqueue_all_total:
  assumes "invariants h" "total_preorder (cmp h)" "0 < allocated h"
    "length_h h + length xs \<le> 2 ^ 63"
  shows "\<exists>ps h'. enqueue_all ra h xs = Returns (ps, h')"
  using assms
proof (induction xs arbitrary: h)
  case Nil
  then show ?case by simp
next
  case (Cons x xs)
  from Cons.prems have wf: "wf_heap h" and af: "array_fits h"
    by (simp_all add: invariants_def)
  from enqueue_total [OF wf af Cons.prems(3), of ra x] obtain p h1 where
    e: "islbh_enqueue ra h x = Returns (p, h1)" by blast
  from enqueue_correct [OF Cons.prems(1,2) e]
  have 1: "invariants h1" "cmp h1 = cmp h" "allocated h \<le> allocated h1"
    "p = None \<longrightarrow> h1 = h" "p \<noteq> None \<longrightarrow> length_h h1 = length_h h + 1"
    by (auto split: option.splits)
  have "length_h h1 \<le> length_h h + 1" using 1(4,5) by (cases p) auto
  with Cons.prems have "length_h h1 + length xs \<le> 2 ^ 63" by simp
  from Cons.IH [OF 1(1) _ _ this] 1 Cons.prems obtain ps h' where
    "enqueue_all ra h1 xs = Returns (ps, h')" by auto
  with e show ?case by simp
qed

subsection \<open>The order law\<close>

lemma ex_cmp_total_preorder: "total_preorder ex_cmp"
  by (simp add: total_preorder_def ex_cmp_def)

lemma ex_heap_invariants: "invariants ex_heap"
  by (simp add: invariants_def wf_heap_def array_fits_def positions_ok_def heap_order_def
      ex_heap_def SIZE_MOD_def NODE_SIZE_def PTRDIFF_MAX_def)

lemmas eval_simps =
  islbh_enqueue_def islbh__grow_def ISLBH_REALLOC_def NODE_SIZE_def PTRDIFF_MAX_def
  islbh__siftup.simps islbh__swap_def Let_def SIZE_MOD_def
  ex_heap_def ex_alloc_def ex_cmp_def islbh_dequeue_def islbh__siftdown_floyd.simps
  islbh__siftdown.simps upt_conv_Cons

lemma ex_enqueue_all:
  "enqueue_all ex_alloc ex_heap [5, 3, 8, 1, 4] =
     Returns ([Some (Slot 0), Some (Slot 0), Some (Slot 2), Some (Slot 0), Some (Slot 4)],
       ex_heap5)"
  by (simp add: eval_simps ex_heap5_def)

lemma ex_drain: "drain ex_heap5 = Returns [1, 3, 4, 5, 8]"
  by (simp add: eval_simps ex_heap5_def drain.simps)

text \<open>
  Claim C1. For every comparator that is a consistent total preorder and every sequence
  of \<open>islbh_enqueue\<close> calls on a heap that satisfies the invariants, repeated
  \<open>islbh_dequeue\<close> calls until the heap is empty return exactly the items of the heap, in
  non-decreasing order under the comparator. The enqueue calls do not leave the node array
  when the heap has a slot and its length stays within \<open>2 ^ 63\<close>.
\<close>

theorem order_law:
  assumes "total_preorder (cmp h)" and "invariants h"
  shows "(\<forall>ps h'. enqueue_all ra h xs = Returns (ps, h') \<longrightarrow>
            (\<exists>ys. drain h' = Returns ys \<and> mset ys = active_items h'
                  \<and> sorted_wrt (\<lambda>a b. cmp h a b \<le> 0) ys))
       \<and> (0 < allocated h \<and> length_h h + length xs \<le> 2 ^ 63 \<longrightarrow>
            enqueue_all ra h xs \<noteq> OutOfBounds)"
proof (intro conjI allI impI)
  fix ps h' assume r: "enqueue_all ra h xs = Returns (ps, h')"
  from enqueue_all_correct [OF assms(2,1) r] have "invariants h'" "cmp h' = cmp h" by simp_all
  with drain_correct [of h'] assms(1)
  show "\<exists>ys. drain h' = Returns ys \<and> mset ys = active_items h'
          \<and> sorted_wrt (\<lambda>a b. cmp h a b \<le> 0) ys" by simp
next
  assume "0 < allocated h \<and> length_h h + length xs \<le> 2 ^ 63"
  with enqueue_all_total [OF assms(2,1), of xs ra] show "enqueue_all ra h xs \<noteq> OutOfBounds"
    by auto
qed

theorem order_law_witness:
  "total_preorder (cmp ex_heap) \<and> invariants ex_heap
   \<and> 0 < allocated ex_heap \<and> length_h ex_heap + length [5, 3, 8, 1, 4 :: int] \<le> 2 ^ 63
   \<and> enqueue_all ex_alloc ex_heap [5, 3, 8, 1, 4] \<noteq> OutOfBounds
   \<and> (\<exists>ps h'. enqueue_all ex_alloc ex_heap [5, 3, 8, 1, 4] = Returns (ps, h')
         \<and> drain h' = Returns [1, 3, 4, 5, 8])
   \<and> sorted_wrt (\<lambda>a b. cmp ex_heap a b \<le> 0) [1, 3, 4, 5, 8 :: int]"
proof -
  have tp: "total_preorder (cmp ex_heap)"
    by (simp add: ex_heap_def ex_cmp_total_preorder)
  have inv: "invariants ex_heap" by (rule ex_heap_invariants)
  have b: "0 < allocated ex_heap \<and> length_h ex_heap + length [5, 3, 8, 1, 4 :: int] \<le> 2 ^ 63"
    by (simp add: ex_heap_def)
  note law = order_law [OF tp inv, of ex_alloc "[5, 3, 8, 1, 4]"]
  from law b have nf: "enqueue_all ex_alloc ex_heap [5, 3, 8, 1, 4] \<noteq> OutOfBounds" by blast
  from law ex_enqueue_all obtain ys where
    "drain ex_heap5 = Returns ys" "sorted_wrt (\<lambda>a b. cmp ex_heap a b \<le> 0) ys" by blast
  with ex_drain have "sorted_wrt (\<lambda>a b. cmp ex_heap a b \<le> 0) [1, 3, 4, 5, 8 :: int]" by simp
  with tp inv b nf ex_enqueue_all ex_drain show ?thesis by blast
qed

subsection \<open>Removal\<close>

lemma deref_Slot: "k < size (nodes h) \<Longrightarrow> deref h (Slot k) = Returns (nodes h ! k)"
  by (simp add: deref_def)

lemma update_total:
  assumes sz: "length_h h \<le> size (nodes h)" and d: "deref h p = Returns nd"
    and i: "index nd = 0 \<or> index nd < size (nodes h)"
  shows "\<exists>h'. islbh_update h p = Returns h'"
proof -
  from siftup_total [OF i] obtain h1 k1 where su: "islbh__siftup h (index nd) = Returns (h1, k1)"
    by blast
  from siftup_frame [OF su] sz have "length_h h1 \<le> size (nodes h1)" by simp
  from siftdown_total [OF this, of k1] obtain h2 where "islbh__siftdown h1 k1 = Returns h2" by blast
  with su d show ?thesis by (simp add: islbh_update_def)
qed

lemma remove_ok_total:
  assumes wf: "wf_heap h" and d: "deref h p = Returns nd"
    and i: "index nd < length_h h" and p: "p = Slot (index nd)"
  shows "\<exists>h'. islbh_remove h (Some p) = Returns (ISLBH_ERROR_OK, h')"
proof -
  let ?idx = "index nd" let ?last = "length_h h - 1"
  let ?h1 = "h\<lparr>length_h := ?last\<rparr>"
  from wf have sz: "length_h h \<le> size (nodes h)" by (simp add: wf_heap_def)
  from d p i sz have nd: "nd = nodes h ! ?idx" by (simp add: deref_def)
  obtain h2 where sw: "(if ?idx \<noteq> ?last then islbh__swap ?h1 ?idx ?last else Returns ?h1) = Returns h2"
    using swap_Returns_iff [of ?h1 ?idx ?last] i sz by (cases "?idx = ?last") auto
  have fr: "length_h h2 = ?last" "size (nodes h2) = size (nodes h)"
    using sw swap_frame [of ?h1 ?idx ?last h2] by (auto split: if_splits)
  have ix: "index (nodes h2 ! ?idx) = ?idx"
  proof (cases "?idx = ?last")
    case True
    with sw nd show ?thesis by auto
  next
    case False
    with sw have "islbh__swap ?h1 ?idx ?last = Returns h2" by simp
    from swap_index [OF this, of ?idx] i sz show ?thesis by simp
  qed
  have "deref h2 (Slot ?idx) = Returns (nodes h2 ! ?idx)" using i sz fr by (simp add: deref_def)
  moreover have "length_h h2 \<le> size (nodes h2)" "index (nodes h2 ! ?idx) < size (nodes h2)"
    using ix i sz fr by auto
  ultimately obtain h3 where up: "islbh_update h2 (Slot ?idx) = Returns h3"
    using update_total [of h2 "Slot ?idx" "nodes h2 ! ?idx"] by blast
  have "islbh_remove h (Some p) =
      (case (if ?idx \<noteq> ?last then islbh__swap ?h1 ?idx ?last else Returns ?h1) of
         OutOfBounds \<Rightarrow> OutOfBounds
       | Returns h2 \<Rightarrow>
           (case islbh_update h2 (Slot ?idx) of
              OutOfBounds \<Rightarrow> OutOfBounds
            | Returns h3 \<Rightarrow> Returns (ISLBH_ERROR_OK, h3)))"
    using d i p by (simp add: islbh_remove_def Let_def)
  also have "\<dots> = Returns (ISLBH_ERROR_OK, h3)" unfolding sw using up by simp
  finally show ?thesis by blast
qed

text \<open>
  Claim C8. On a well-formed heap, and for a node pointer that is \<open>NULL\<close> or can be read,
  \<open>islbh_remove\<close> returns \<open>ISLBH_ERROR_NULL_NODE\<close> exactly when the pointer is \<open>NULL\<close>,
  \<open>ISLBH_ERROR_NOT_EXIST\<close> exactly when the index recorded in the node is at least
  \<open>length\<close> or the slot at that index is not the node pointed to, and \<open>ISLBH_ERROR_OK\<close>
  otherwise.
\<close>

theorem remove_result:
  assumes "wf_heap h"
    and "node = None \<or> (\<exists>p nd. node = Some p \<and> deref h p = Returns nd)"
  shows "\<exists>e h'. islbh_remove h node = Returns (e, h')
     \<and> (e = ISLBH_ERROR_NULL_NODE \<longleftrightarrow> node = None)
     \<and> (e = ISLBH_ERROR_NOT_EXIST \<longleftrightarrow>
          (\<exists>p nd. node = Some p \<and> deref h p = Returns nd
             \<and> (length_h h \<le> index nd \<or> Slot (index nd) \<noteq> p)))
     \<and> (e = ISLBH_ERROR_OK \<longleftrightarrow>
          (\<exists>p nd. node = Some p \<and> deref h p = Returns nd
             \<and> index nd < length_h h \<and> Slot (index nd) = p))"
proof (cases node)
  case None
  then show ?thesis by (simp add: islbh_remove_def)
next
  case (Some p)
  with assms(2) obtain nd where d: "deref h p = Returns nd" by auto
  show ?thesis
  proof (cases "length_h h \<le> index nd \<or> Slot (index nd) \<noteq> p")
    case True
    with Some d have "islbh_remove h node = Returns (ISLBH_ERROR_NOT_EXIST, h)"
      by (simp add: islbh_remove_def)
    with Some d True show ?thesis by auto
  next
    case False
    then have i: "index nd < length_h h" and p: "p = Slot (index nd)" by auto
    from remove_ok_total [OF assms(1) d i p] Some obtain h' where
      "islbh_remove h node = Returns (ISLBH_ERROR_OK, h')" by auto
    with Some d False show ?thesis by auto
  qed
qed

theorem remove_result_witness:
  "wf_heap ex_heap3
   \<and> deref ex_heap3 (Slot 0) = Returns \<lparr>item = 1, index = 0\<rparr>
   \<and> (\<exists>h'. islbh_remove ex_heap3 (Some (Slot 0)) = Returns (ISLBH_ERROR_OK, h'))
   \<and> islbh_remove ex_heap3 None = Returns (ISLBH_ERROR_NULL_NODE, ex_heap3)
   \<and> islbh_remove ex_heap3 (Some (Foreign \<lparr>item = 1, index = 0\<rparr>))
       = Returns (ISLBH_ERROR_NOT_EXIST, ex_heap3)
   \<and> islbh_remove ex_heap3 (Some (Foreign \<lparr>item = 9, index = 3\<rparr>))
       = Returns (ISLBH_ERROR_NOT_EXIST, ex_heap3)"
proof -
  have wf: "wf_heap ex_heap3" by (simp add: wf_heap_def ex_heap3_def SIZE_MOD_def)
  have d: "deref ex_heap3 (Slot 0) = Returns \<lparr>item = 1, index = 0\<rparr>"
    by (simp add: deref_def ex_heap3_def)
  from remove_result [OF wf, of "Some (Slot 0)"] d
  obtain e h' where r: "islbh_remove ex_heap3 (Some (Slot 0)) = Returns (e, h')"
    and ok: "e = ISLBH_ERROR_OK \<longleftrightarrow>
      (\<exists>p nd. Some (Slot 0) = Some p \<and> deref ex_heap3 p = Returns nd
         \<and> index nd < length_h ex_heap3 \<and> Slot (index nd) = p)"
    by blast
  from d have "\<exists>p nd. Some (Slot 0) = Some p \<and> deref ex_heap3 p = Returns nd
         \<and> index nd < length_h ex_heap3 \<and> Slot (index nd) = p"
    by (simp add: ex_heap3_def)
  with ok r have "\<exists>h'. islbh_remove ex_heap3 (Some (Slot 0)) = Returns (ISLBH_ERROR_OK, h')"
    by blast
  moreover have "islbh_remove ex_heap3 None = Returns (ISLBH_ERROR_NULL_NODE, ex_heap3)"
    "islbh_remove ex_heap3 (Some (Foreign \<lparr>item = 1, index = 0\<rparr>))
       = Returns (ISLBH_ERROR_NOT_EXIST, ex_heap3)"
    "islbh_remove ex_heap3 (Some (Foreign \<lparr>item = 9, index = 3\<rparr>))
       = Returns (ISLBH_ERROR_NOT_EXIST, ex_heap3)"
    by (simp_all add: islbh_remove_def deref_def ex_heap3_def)
  ultimately show ?thesis using wf d by blast
qed

subsection \<open>The doubling loop of the batch insertion\<close>

lemma batchenq_unfold:
  "islbh_batchenq ra h items cnt want_nodes =
     (case islbh_batchenq_while (allocated h) ((length_h h + cnt) mod SIZE_MOD) of
        None \<Rightarrow> None
      | Some alloc \<Rightarrow>
          Some
            (case (if allocated h < alloc then islbh__grow ra h alloc
                   else (ISLBH_ERROR_OK, h)) of
               (err, h1) \<Rightarrow>
                 if err \<noteq> ISLBH_ERROR_OK then Returns (ISLBH_ERROR_BAD_ALLOC, h1, [])
                 else
                   (case islbh_batchenq_for h1 (length_h h) items cnt 0 of
                      OutOfBounds \<Rightarrow> OutOfBounds
                    | Returns h2 \<Rightarrow>
                        (case islbh__floyd_algorithm
                                (h2\<lparr>length_h := (length_h h + cnt) mod SIZE_MOD\<rparr>) of
                           OutOfBounds \<Rightarrow> OutOfBounds
                         | Returns h4 \<Rightarrow>
                             Returns (ISLBH_ERROR_OK, h4,
                               if want_nodes
                               then map (\<lambda>i. nodes h2 ! ((length_h h + i) mod SIZE_MOD)) [0..<cnt]
                               else [])))))"
  by (simp add: islbh_batchenq_def Let_def split: prod.splits option.splits outcome.splits)

lemma while_step:
  "0 < alloc \<Longrightarrow> alloc < target \<Longrightarrow>
     islbh_batchenq_while alloc target = islbh_batchenq_while (alloc * 2 mod SIZE_MOD) target"
  by (subst islbh_batchenq_while.simps) simp

lemma while_stop: "\<not> alloc < target \<Longrightarrow> islbh_batchenq_while alloc target = Some alloc"
  by (subst islbh_batchenq_while.simps) simp

lemma while_Some_pos:
  assumes "islbh_batchenq_while a t = Some r"
  shows "0 < a \<or> t = 0"
proof (rule islbh_batchenq_while.raw_induct [where P = "\<lambda>a t r. 0 < a \<or> t = 0", OF _ assms])
  fix f :: "nat \<Rightarrow> nat \<Rightarrow> nat option" and a t r :: nat
  assume ih: "\<And>t b y. f t b = Some y \<Longrightarrow> 0 < t \<or> b = 0"
    and body: "(if a < t then f (a * 2 mod SIZE_MOD) t else Some a) = Some r"
  show "0 < a \<or> t = 0"
  proof (cases "a = 0 \<and> 0 < t")
    case True
    with body have "f 0 t = Some r" by simp
    from ih [OF this] True show ?thesis by simp
  next
    case False
    then show ?thesis by auto
  qed
qed

lemma while_zero: "0 < target \<Longrightarrow> islbh_batchenq_while 0 target = None"
  using while_Some_pos [of 0 target] by (cases "islbh_batchenq_while 0 target") auto

lemma while_doubles:
  assumes "0 < a" "a * 2 ^ k < SIZE_MOD" "\<forall>j<k. a * 2 ^ j < t" "t \<le> a * 2 ^ k"
  shows "islbh_batchenq_while a t = Some (a * 2 ^ k)"
  using assms
proof (induction k arbitrary: a)
  case 0
  then show ?case by (simp add: while_stop)
next
  case (Suc k)
  from Suc.prems(3) have lt: "a < t" by force
  have b: "a * 2 < SIZE_MOD"
  proof -
    have "a * 2 \<le> a * 2 ^ Suc k" by simp
    with Suc.prems(2) show ?thesis by linarith
  qed
  have "\<forall>j<k. (a * 2) * 2 ^ j < t"
  proof (intro allI impI)
    fix j assume "j < k"
    with Suc.prems(3) [rule_format, of "Suc j"] show "(a * 2) * 2 ^ j < t"
      by (simp add: mult.assoc)
  qed
  with Suc.IH [of "a * 2"] Suc.prems have "islbh_batchenq_while (a * 2) t = Some (a * 2 * 2 ^ k)"
    by (simp add: mult.assoc)
  with while_step [OF Suc.prems(1) lt] b show ?case by (simp add: mult.assoc)
qed

lemma least_doubling:
  assumes "0 < (a::nat)"
  shows "\<exists>k. t \<le> a * 2 ^ k \<and> (\<forall>j<k. a * 2 ^ j < t)"
proof -
  have ex: "\<exists>k. t \<le> a * 2 ^ k"
  proof
    have "t < 2 ^ t" by (rule less_exp)
    also have "\<dots> \<le> a * 2 ^ t" using assms by simp
    finally show "t \<le> a * 2 ^ t" by simp
  qed
  define k where "k = (LEAST k. t \<le> a * 2 ^ k)"
  have "t \<le> a * 2 ^ k" unfolding k_def using ex by (rule LeastI_ex)
  moreover have "a * 2 ^ j < t" if "j < k" for j
    using not_less_Least [of j "\<lambda>k. t \<le> a * 2 ^ k"] that unfolding k_def by simp
  ultimately show ?thesis by blast
qed

text \<open>The capacity that the doubling loop reaches when nothing wraps around.\<close>

lemma while_least_doubling:
  assumes "wf_heap h" and "length_h h + cnt \<le> 2 ^ 63"
  shows "(1 \<le> allocated h \<or> cnt = 0 \<longrightarrow>
           (\<exists>k. islbh_batchenq_while (allocated h) ((length_h h + cnt) mod SIZE_MOD)
                   = Some (allocated h * 2 ^ k)
                \<and> length_h h + cnt \<le> allocated h * 2 ^ k
                \<and> (\<forall>j<k. allocated h * 2 ^ j < length_h h + cnt)))
       \<and> (allocated h = 0 \<and> 1 \<le> cnt \<longrightarrow>
           islbh_batchenq_while (allocated h) ((length_h h + cnt) mod SIZE_MOD) = None)"
proof -
  let ?a = "allocated h" let ?t = "length_h h + cnt"
  from assms(2) have t: "?t mod SIZE_MOD = ?t" by (simp add: SIZE_MOD_def)
  show ?thesis
  proof (intro conjI impI)
    assume c: "1 \<le> ?a \<or> cnt = 0"
    show "\<exists>k. islbh_batchenq_while ?a (?t mod SIZE_MOD) = Some (?a * 2 ^ k)
        \<and> ?t \<le> ?a * 2 ^ k \<and> (\<forall>j<k. ?a * 2 ^ j < ?t)"
    proof (cases "?t \<le> ?a")
      case True
      then have "islbh_batchenq_while ?a ?t = Some (?a * 2 ^ 0)" by (simp add: while_stop)
      with True t show ?thesis by (intro exI [of _ 0]) simp
    next
      case False
      with c assms(1) have a: "0 < ?a" by (auto simp: wf_heap_def)
      from least_doubling [OF a, of ?t] obtain k where
        k: "?t \<le> ?a * 2 ^ k" "\<forall>j<k. ?a * 2 ^ j < ?t" by blast
      have "?a * 2 ^ k < SIZE_MOD"
      proof (cases k)
        case 0
        with assms(1) show ?thesis by (simp add: wf_heap_def)
      next
        case (Suc k')
        with k(2) have "?a * 2 ^ k' < ?t" by simp
        with assms(2) have "?a * 2 ^ k' < 2 ^ 63" by simp
        then have "?a * 2 ^ k' * 2 < 2 ^ 63 * 2" by simp
        with Suc show ?thesis by (simp add: SIZE_MOD_def mult.assoc mult.commute)
      qed
      from while_doubles [OF a this k(2) k(1)] k t show ?thesis by auto
    qed
  next
    assume "?a = 0 \<and> 1 \<le> cnt"
    with t while_zero [of ?t] show "islbh_batchenq_while ?a (?t mod SIZE_MOD) = None" by simp
  qed
qed

text \<open>
  Claim C10, amended. On a well-formed heap with \<open>length + count \<le> 2 ^ 63\<close>, so that
  neither the sum nor the doubling wraps around: when the capacity is at least 1 or
  \<open>count\<close> is 0, the doubling loop of \<open>islbh_batchenq\<close> exits, with the smallest
  \<open>allocated * 2 ^ k\<close> that is at least \<open>length + count\<close>; when the capacity is 0 and
  \<open>count\<close> is at least 1, the loop never exits.
\<close>

theorem batchenq_while_result:
  assumes "wf_heap h" and "length_h h + cnt \<le> 2 ^ 63"
  shows "(1 \<le> allocated h \<or> cnt = 0 \<longrightarrow>
           (\<exists>k. islbh_batchenq_while (allocated h) ((length_h h + cnt) mod SIZE_MOD)
                   = Some (allocated h * 2 ^ k)
                \<and> length_h h + cnt \<le> allocated h * 2 ^ k
                \<and> (\<forall>j<k. allocated h * 2 ^ j < length_h h + cnt)))
       \<and> (allocated h = 0 \<and> 1 \<le> cnt \<longrightarrow>
           islbh_batchenq_while (allocated h) ((length_h h + cnt) mod SIZE_MOD) = None)"
  using assms by (rule while_least_doubling)

theorem batchenq_while_result_witness:
  "wf_heap ex_heap3 \<and> length_h ex_heap3 + 6 \<le> 2 ^ 63 \<and> 1 \<le> allocated ex_heap3
   \<and> islbh_batchenq_while (allocated ex_heap3) ((length_h ex_heap3 + 6) mod SIZE_MOD)
       = Some 12
   \<and> wf_heap ex_heap0 \<and> length_h ex_heap0 + 1 \<le> 2 ^ 63 \<and> allocated ex_heap0 = 0
   \<and> islbh_batchenq_while (allocated ex_heap0) ((length_h ex_heap0 + 1) mod SIZE_MOD) = None"
proof -
  have wf3: "wf_heap ex_heap3" and b3: "length_h ex_heap3 + 6 \<le> 2 ^ 63"
    and a3: "1 \<le> allocated ex_heap3"
    by (simp_all add: wf_heap_def ex_heap3_def SIZE_MOD_def)
  have wf0: "wf_heap ex_heap0" and b0: "length_h ex_heap0 + 1 \<le> 2 ^ 63"
    and a0: "allocated ex_heap0 = 0"
    by (simp_all add: wf_heap_def ex_heap0_def SIZE_MOD_def)
  from batchenq_while_result [OF wf3 b3] a3 obtain k where
    k: "islbh_batchenq_while (allocated ex_heap3) ((length_h ex_heap3 + 6) mod SIZE_MOD)
          = Some (allocated ex_heap3 * 2 ^ k)" by blast
  have "islbh_batchenq_while (allocated ex_heap3) ((length_h ex_heap3 + 6) mod SIZE_MOD) = Some 12"
    by (simp add: ex_heap3_def SIZE_MOD_def while_step while_stop)
  moreover from batchenq_while_result [OF wf0 b0] a0
  have "islbh_batchenq_while (allocated ex_heap0) ((length_h ex_heap0 + 1) mod SIZE_MOD) = None"
    by simp
  ultimately show ?thesis using wf3 b3 a3 wf0 b0 a0 by blast
qed

lemma while_wraps: "islbh_batchenq_while 1 (2 ^ 64 - 1) = None"
proof -
  have "islbh_batchenq_while 1 (2 ^ 64 - 1) = islbh_batchenq_while 0 (2 ^ 64 - 1)"
    by (simp add: while_step SIZE_MOD_def)
  then show ?thesis by (simp add: while_zero)
qed

text \<open>
  Claim C10 as stated fails: with capacity 1, length 0 and \<open>count = 2 ^ 64 - 1\<close> the local
  variable doubles up to \<open>2 ^ 63\<close>, wraps around to 0 and stays below the target for ever.
\<close>

theorem batchenq_while_counterexample:
  "wf_heap ex_heap \<and> 1 \<le> allocated ex_heap
   \<and> islbh_batchenq_while (allocated ex_heap) ((length_h ex_heap + (2 ^ 64 - 1)) mod SIZE_MOD)
       = None
   \<and> islbh_batchenq ex_alloc ex_heap (\<lambda>i. 0) (2 ^ 64 - 1) False = None"
  using while_wraps
  by (simp add: batchenq_unfold wf_heap_def ex_heap_def SIZE_MOD_def)

subsection \<open>Growth from capacity zero\<close>

text \<open>
  Claim C3. The code asks for \<open>allocated * 2\<close> slots, with no special case for zero. On the
  heap that \<open>islbh_create\<close> returns for \<open>prealloc = 0\<close>, \<open>islbh_enqueue\<close> asks the
  allocator for 0 slots, that is 0 bytes: when that succeeds the node is stored outside the
  array, and an allocator that refuses only requests of 0 bytes makes the call fail, while
  the heap of capacity one takes the item.
\<close>

theorem enqueue_zero_capacity:
  "islbh_create True ex_alloc 0 ex_cmp = Some ex_heap0
   \<and> islbh_enqueue ex_alloc ex_heap0 5 = OutOfBounds
   \<and> islbh_enqueue ex_alloc_nonzero ex_heap0 5 = Returns (None, ex_heap0)
   \<and> islbh_enqueue ex_alloc_nonzero ex_heap 5 \<noteq> Returns (None, ex_heap)"
  by (simp add: islbh_create_def ISLBH_MALLOC_def enqueue_unfold islbh__grow_def
      ISLBH_REALLOC_def NODE_SIZE_def PTRDIFF_MAX_def ex_alloc_def ex_alloc_nonzero_def
      ex_heap0_def ex_heap_def SIZE_MOD_def islbh__siftup.simps)

subsection \<open>Queries on an empty heap\<close>

lemma peek_never_null: "islbh_peek h \<noteq> Returns None"
  by (simp add: islbh_peek_def)

text \<open>
  Claim C4. On an empty heap \<open>islbh_dequeue\<close> returns \<open>NULL\<close> and leaves the heap as it
  is, but \<open>islbh_peek\<close> reads slot 0 without looking at \<open>length\<close>: on a fresh heap it
  returns the indeterminate content of the slot, on a heap of capacity 0 it reads outside
  the array, and after the only item was dequeued it returns that stale item.
\<close>

theorem peek_empty_heap:
  "length_h ex_heap = 0 \<and> islbh_dequeue ex_heap = Returns (None, ex_heap)
   \<and> islbh_peek ex_heap = Returns (Some 0)
   \<and> length_h ex_heap0 = 0 \<and> islbh_peek ex_heap0 = OutOfBounds
   \<and> islbh_enqueue ex_alloc ex_heap 7
       = Returns (Some (Slot 0), ex_full)
   \<and> islbh_dequeue ex_full = Returns (Some 7, ex_full\<lparr>length_h := 0\<rparr>)
   \<and> islbh_peek (ex_full\<lparr>length_h := 0\<rparr>) = Returns (Some 7)"
  by (simp add: islbh_peek_def islbh_dequeue_def enqueue_unfold ex_heap_def ex_heap0_def
      ex_full_def islbh__siftup.simps)

subsection \<open>The steps of the conditional sift-down\<close>

text \<open>
  Claim C5 as stated fails on a tie: the root 10 and its only child 11 compare equal
  under \<open>ex_tens\<close>, and \<open>islbh__siftdown\<close> swaps them.
\<close>

theorem siftdown_tie_counterexample:
  "total_preorder (cmp ex_tie) \<and> higher_child ex_tie 0 = 1
   \<and> cmp ex_tie (key ex_tie 0) (key ex_tie (higher_child ex_tie 0)) = 0
   \<and> islbh__siftdown ex_tie 0
       = Returns (ex_tie\<lparr>nodes := [\<lparr>item = 11, index = 0\<rparr>, \<lparr>item = 10, index = 1\<rparr>]\<rparr>)
   \<and> islbh__siftdown ex_tie 0 \<noteq> Returns ex_tie"
  by (simp add: total_preorder_def higher_child_def ex_tie_def ex_tens_def islbh__siftdown.simps
      islbh__swap_def Let_def)

text \<open>
  Claim C5, amended. In \<open>islbh__siftdown\<close>, a slot without a child is left alone.
  Otherwise the child picked is the left one unless a right child exists and compares
  strictly ahead of the left one. The descent stops when the current slot compares
  strictly ahead of that child; when the child compares ahead or ties, the two slots are
  swapped and the descent continues from the child's position.
\<close>

theorem siftdown_steps:
  assumes "length_h h \<le> size (nodes h)"
  shows "(\<not> k * 2 + 1 < length_h h \<longrightarrow> islbh__siftdown h k = Returns h)
     \<and> (k * 2 + 1 < length_h h \<longrightarrow>
          (higher_child h k = k * 2 + 2 \<longleftrightarrow>
             k * 2 + 2 < length_h h \<and> cmp h (key h (k * 2 + 2)) (key h (k * 2 + 1)) < 0)
          \<and> (higher_child h k \<noteq> k * 2 + 2 \<longrightarrow> higher_child h k = k * 2 + 1)
          \<and> (cmp h (key h k) (key h (higher_child h k)) < 0 \<longrightarrow>
                islbh__siftdown h k = Returns h)
          \<and> (0 \<le> cmp h (key h k) (key h (higher_child h k)) \<longrightarrow>
                (\<exists>h1. islbh__swap h k (higher_child h k) = Returns h1
                   \<and> key h1 k = key h (higher_child h k)
                   \<and> key h1 (higher_child h k) = key h k
                   \<and> islbh__siftdown h k = islbh__siftdown h1 (higher_child h k))))"
proof (intro conjI impI)
  assume "\<not> k * 2 + 1 < length_h h"
  then show "islbh__siftdown h k = Returns h" by (subst siftdown_unfold) simp
next
  assume "k * 2 + 1 < length_h h"
  show "higher_child h k = k * 2 + 2 \<longleftrightarrow>
      k * 2 + 2 < length_h h \<and> cmp h (key h (k * 2 + 2)) (key h (k * 2 + 1)) < 0"
    by (simp add: higher_child_def)
next
  assume "higher_child h k \<noteq> k * 2 + 2"
  then show "higher_child h k = k * 2 + 1" using higher_child_cases [of h k] by auto
next
  assume l: "k * 2 + 1 < length_h h" and c: "cmp h (key h k) (key h (higher_child h k)) < 0"
  from higher_child_less [OF l] assms l c show "islbh__siftdown h k = Returns h"
    by (subst siftdown_unfold) simp
next
  assume l: "k * 2 + 1 < length_h h" and c: "0 \<le> cmp h (key h k) (key h (higher_child h k))"
  let ?c = "higher_child h k"
  have cl: "?c < length_h h" "k < ?c" using higher_child_less [OF l] higher_child_greater by auto
  with assms obtain h1 where sw: "islbh__swap h k ?c = Returns h1"
    using swap_Returns_iff [of h k ?c] by auto
  from swap_key_active [OF sw assms, of k] swap_key_active [OF sw assms, of ?c] cl
  have "key h1 k = key h ?c" "key h1 ?c = key h k" by auto
  moreover from l c cl assms sw have "islbh__siftdown h k = islbh__siftdown h1 ?c"
    by (subst siftdown_unfold) auto
  ultimately show "\<exists>h1. islbh__swap h k ?c = Returns h1 \<and> key h1 k = key h ?c
      \<and> key h1 ?c = key h k \<and> islbh__siftdown h k = islbh__siftdown h1 ?c"
    using sw by blast
qed

theorem siftdown_steps_witness:
  "length_h ex_tie \<le> size (nodes ex_tie) \<and> 0 * 2 + 1 < length_h ex_tie
   \<and> 0 \<le> cmp ex_tie (key ex_tie 0) (key ex_tie (higher_child ex_tie 0))
   \<and> higher_child ex_tie 0 = 1
   \<and> (\<exists>h1. islbh__swap ex_tie 0 (higher_child ex_tie 0) = Returns h1
         \<and> key h1 0 = 11 \<and> key h1 (higher_child ex_tie 0) = 10
         \<and> islbh__siftdown ex_tie 0 = islbh__siftdown h1 (higher_child ex_tie 0))"
proof -
  have a: "length_h ex_tie \<le> size (nodes ex_tie)" "0 * 2 + 1 < length_h ex_tie"
    "0 \<le> cmp ex_tie (key ex_tie 0) (key ex_tie (higher_child ex_tie 0))"
    "higher_child ex_tie 0 = 1" "key ex_tie 0 = 10" "key ex_tie (higher_child ex_tie 0) = 11"
    by (simp_all add: ex_tie_def ex_tens_def higher_child_def)
  from siftdown_steps [OF a(1), of 0] a(2,3) obtain h1 where
    "islbh__swap ex_tie 0 (higher_child ex_tie 0) = Returns h1"
    "key h1 0 = key ex_tie (higher_child ex_tie 0)"
    "key h1 (higher_child ex_tie 0) = key ex_tie 0"
    "islbh__siftdown ex_tie 0 = islbh__siftdown h1 (higher_child ex_tie 0)" by blast
  with a show ?thesis by auto
qed

subsection \<open>Update and removal keep the invariants\<close>








subsection \<open>The batch insertion\<close>

lemma while_result:
  assumes "islbh_batchenq_while a t = Some r"
  shows "t \<le> r \<and> (r = a \<or> a < t) \<and> (a < SIZE_MOD \<longrightarrow> r < SIZE_MOD)"
proof (rule islbh_batchenq_while.raw_induct
    [where P = "\<lambda>a t r. t \<le> r \<and> (r = a \<or> a < t) \<and> (a < SIZE_MOD \<longrightarrow> r < SIZE_MOD)",
     OF _ assms])
  fix f :: "nat \<Rightarrow> nat \<Rightarrow> nat option" and a t r :: nat
  assume ih: "\<And>a t r. f a t = Some r \<Longrightarrow>
      t \<le> r \<and> (r = a \<or> a < t) \<and> (a < SIZE_MOD \<longrightarrow> r < SIZE_MOD)"
    and body: "(if a < t then f (a * 2 mod SIZE_MOD) t else Some a) = Some r"
  show "t \<le> r \<and> (r = a \<or> a < t) \<and> (a < SIZE_MOD \<longrightarrow> r < SIZE_MOD)"
  proof (cases "a < t")
    case False
    with body show ?thesis by simp
  next
    case True
    with body have "f (a * 2 mod SIZE_MOD) t = Some r" by simp
    from ih [OF this] True show ?thesis by (simp add: SIZE_MOD_def)
  qed
qed

lemma while_bound:
  assumes "islbh_batchenq_while a t = Some r"
  shows "r = a \<or> r < 2 * t"
proof (rule islbh_batchenq_while.raw_induct [where P = "\<lambda>a t r. r = a \<or> r < 2 * t", OF _ assms])
  fix f :: "nat \<Rightarrow> nat \<Rightarrow> nat option" and a t r :: nat
  assume ih: "\<And>a t r. f a t = Some r \<Longrightarrow> r = a \<or> r < 2 * t"
    and body: "(if a < t then f (a * 2 mod SIZE_MOD) t else Some a) = Some r"
  show "r = a \<or> r < 2 * t"
  proof (cases "a < t")
    case False
    with body show ?thesis by simp
  next
    case True
    with body have "f (a * 2 mod SIZE_MOD) t = Some r" by simp
    from ih [OF this] have "r = a * 2 mod SIZE_MOD \<or> r < 2 * t" .
    moreover have "a * 2 mod SIZE_MOD \<le> a * 2" by (rule mod_less_eq_dividend)
    ultimately show ?thesis using True by linarith
  qed
qed

text \<open>A capacity of \<open>2 ^ 60\<close> slots or more leaves, after the wrap-around, at most half of it.\<close>

lemma wrapped_slots:
  assumes "t \<le> alloc mod 2 ^ 60" "alloc < 2 * t"
  shows "alloc < (2 :: nat) ^ 60"
proof (rule ccontr)
  assume "\<not> alloc < 2 ^ 60"
  then have "1 \<le> alloc div 2 ^ 60" by (simp add: div_greater_zero_iff Suc_le_eq)
  then have "(2 :: nat) ^ 60 * 1 \<le> 2 ^ 60 * (alloc div 2 ^ 60)" by (rule mult_le_mono2)
  moreover have "alloc = 2 ^ 60 * (alloc div 2 ^ 60) + alloc mod 2 ^ 60" by simp
  moreover have "alloc mod 2 ^ 60 < (2 :: nat) ^ 60" by simp
  ultimately show False using assms by linarith
qed

lemma batchenq_for_unfold:
  "islbh_batchenq_for h len items cnt i =
     (if i < cnt then
        (if size (nodes h) \<le> (len + i) mod SIZE_MOD then OutOfBounds
         else islbh_batchenq_for
                (h\<lparr>nodes := (nodes h)[(len + i) mod SIZE_MOD :=
                     \<lparr>item = items i, index = (len + i) mod SIZE_MOD\<rparr>]\<rparr>)
                len items cnt (i + 1))
      else Returns h)"
  by (subst islbh_batchenq_for.simps) (simp add: Let_def)

lemma batchenq_for_result:
  assumes "islbh_batchenq_for h len items cnt i = Returns h2"
    "size (nodes h) < SIZE_MOD" "len + i \<le> size (nodes h)" "i \<le> cnt"
  shows "len + cnt \<le> size (nodes h) \<and> length_h h2 = length_h h \<and> allocated h2 = allocated h
     \<and> cmp h2 = cmp h \<and> size (nodes h2) = size (nodes h)
     \<and> (\<forall>j < size (nodes h). nodes h2 ! j =
           (if len + i \<le> j \<and> j < len + cnt then \<lparr>item = items (j - len), index = j\<rparr>
            else nodes h ! j))"
  using assms
proof (induction "cnt - i" arbitrary: h i)
  case 0
  then have "i = cnt" by simp
  with 0 show ?case by (subst (asm) batchenq_for_unfold) auto
next
  case (Suc d)
  then have lt: "i < cnt" by simp
  let ?pos = "(len + i) mod SIZE_MOD"
  let ?h1 = "h\<lparr>nodes := (nodes h)[?pos := \<lparr>item = items i, index = ?pos\<rparr>]\<rparr>"
  from Suc.prems(2,3) have pos: "?pos = len + i" by simp
  from Suc.prems(1) lt have b: "?pos < size (nodes h)"
    and rec: "islbh_batchenq_for ?h1 len items cnt (i + 1) = Returns h2"
    by (subst (asm) batchenq_for_unfold; simp split: if_splits)+
  have d: "d = cnt - (i + 1)" using Suc.hyps(2) by simp
  from Suc.hyps(1) [OF d rec] Suc.prems(2) b pos lt
  have ih: "len + cnt \<le> size (nodes h)" "length_h h2 = length_h h" "allocated h2 = allocated h"
    "cmp h2 = cmp h" "size (nodes h2) = size (nodes h)"
    "\<forall>j < size (nodes h). nodes h2 ! j =
           (if len + (i + 1) \<le> j \<and> j < len + cnt then \<lparr>item = items (j - len), index = j\<rparr>
            else nodes ?h1 ! j)"
    by simp_all
  have "nodes h2 ! j =
           (if len + i \<le> j \<and> j < len + cnt then \<lparr>item = items (j - len), index = j\<rparr>
            else nodes h ! j)" if "j < size (nodes h)" for j
    using ih(6) that pos b lt by (auto simp: nth_list_update)
  with ih show ?case by simp
qed


lemma floyd_loop_unfold:
  "islbh__floyd_algorithm_loop h n i =
     (if i < n then
        (case islbh__siftdown h (n - i - 1) of
           OutOfBounds \<Rightarrow> OutOfBounds
         | Returns h' \<Rightarrow> islbh__floyd_algorithm_loop h' n (i + 1))
      else Returns h)"
  by (subst islbh__floyd_algorithm_loop.simps) simp

lemma ord_from_down_pre: "ord_from h (Suc k) \<Longrightarrow> down_pre h k k"
  unfolding ord_from_def down_pre_def
proof (intro conjI allI impI)
  fix i assume a: "\<forall>i. 0 < i \<and> i < length_h h \<and> Suc k \<le> parent i
      \<longrightarrow> 0 \<le> cmp h (key h i) (key h (parent i))"
    and i: "0 < i \<and> i < length_h h \<and> k \<le> parent i \<and> parent i \<noteq> k"
  then have "Suc k \<le> parent i" by simp
  with a i show "0 \<le> cmp h (key h i) (key h (parent i))" by blast
next
  fix c assume "0 < k \<and> k \<le> parent k \<and> 0 < c \<and> c < length_h h \<and> parent c = k"
  with parent_less [of k] have False by simp
  then show "0 \<le> cmp h (key h c) (key h (parent k))" ..
qed

lemma floyd_loop_correct:
  assumes "islbh__floyd_algorithm_loop h n i = Returns h'" "total_preorder (cmp h)"
    "length_h h \<le> size (nodes h)" "i \<le> n" "ord_from h (n - i)"
  shows "heap_order h' \<and> same_heap h h'"
  using assms
proof (induction "n - i" arbitrary: h i)
  case 0
  then have "h' = h" by (subst (asm) floyd_loop_unfold) simp
  with 0 show ?case by (simp add: heap_order_iff same_heap_refl)
next
  case (Suc d)
  then have lt: "i < n" by simp
  from Suc.prems(1) lt obtain h1 where sd: "islbh__siftdown h (n - i - 1) = Returns h1"
    and rec: "islbh__floyd_algorithm_loop h1 n (i + 1) = Returns h'"
    by (subst (asm) floyd_loop_unfold) (auto split: outcome.splits)
  from siftdown_same_heap [OF sd Suc.prems(3)] have s1: "same_heap h h1" .
  have "Suc (n - i - 1) = n - i" using lt by simp
  with Suc.prems(5) have "down_pre h (n - i - 1) (n - i - 1)"
    using ord_from_down_pre [of h "n - i - 1"] by simp
  from siftdown_ord [OF sd Suc.prems(2,3) this] have "ord_from h1 (n - (i + 1))" by simp
  moreover have "d = n - (i + 1)" using Suc.hyps(2) by simp
  moreover have "total_preorder (cmp h1)" "length_h h1 \<le> size (nodes h1)"
    using s1 Suc.prems(2,3) by (simp_all add: same_heap_def)
  ultimately have "heap_order h' \<and> same_heap h1 h'"
    using Suc.hyps(1) [of "i + 1" h1] rec lt by simp
  with s1 show ?case using same_heap_trans by blast
qed


lemma floyd_algorithm_correct:
  assumes "islbh__floyd_algorithm h = Returns h'" "total_preorder (cmp h)"
    "length_h h \<le> size (nodes h)"
  shows "heap_order h' \<and> same_heap h h'"
proof -
  have "ord_from h (length_h h div 2)"
    unfolding ord_from_def
  proof (intro allI impI)
    fix i assume "0 < i \<and> i < length_h h \<and> length_h h div 2 \<le> parent i"
    then have False by (simp add: parent_def) arith
    then show "0 \<le> cmp h (key h i) (key h (parent i))" ..
  qed
  with floyd_loop_correct [of h "length_h h div 2" 0 h'] assms show ?thesis
    by (simp add: islbh__floyd_algorithm_def Let_def)
qed


text \<open>The heap in which \<open>islbh_batchenq\<close> stores the new nodes.\<close>

lemma batchenq_grown_small:
  assumes wf: "wf_heap h"
    and w: "islbh_batchenq_while (allocated h) t = Some alloc"
    and g: "(if allocated h < alloc then islbh__grow ra h alloc else (ISLBH_ERROR_OK, h))
             = (ISLBH_ERROR_OK, h1)"
    and small: "allocated h < alloc \<longrightarrow> alloc < 2 ^ 60"
  shows "length_h h1 = length_h h" "cmp h1 = cmp h" "allocated h1 = size (nodes h1)"
    "allocated h1 < SIZE_MOD" "size (nodes h) \<le> size (nodes h1)" "t \<le> size (nodes h1)"
    "\<forall>i<size (nodes h). nodes h1 ! i = nodes h ! i" "array_fits h \<longrightarrow> array_fits h1"
proof -
  from while_result [OF w] wf have a: "t \<le> alloc" "alloc = allocated h \<or> allocated h < t"
    "alloc < SIZE_MOD" by (simp_all add: wf_heap_def)
  have "length_h h1 = length_h h \<and> cmp h1 = cmp h \<and> allocated h1 = size (nodes h1)
    \<and> allocated h1 < SIZE_MOD \<and> size (nodes h) \<le> size (nodes h1) \<and> t \<le> size (nodes h1)
    \<and> (\<forall>i<size (nodes h). nodes h1 ! i = nodes h ! i) \<and> (array_fits h \<longrightarrow> array_fits h1)"
  proof (cases "allocated h < alloc")
    case False
    with g a wf show ?thesis by (auto simp: wf_heap_def)
  next
    case True
    with g have "islbh__grow ra h alloc = (ISLBH_ERROR_OK, h1)" by simp
    from grow_cases [OF this]
    have c: "length_h h1 = length_h h" "cmp h1 = cmp h" "allocated h1 = alloc"
      "size (nodes h1) = alloc mod 2 ^ 60" "NODE_SIZE * (alloc mod 2 ^ 60) \<le> PTRDIFF_MAX"
      "\<forall>i. i < size (nodes h1) \<and> i < size (nodes h) \<longrightarrow> nodes h1 ! i = nodes h ! i"
      by simp_all
    from small True have m: "alloc mod 2 ^ 60 = alloc" by simp
    from wf True have le: "size (nodes h) < alloc" by (simp add: wf_heap_def)
    have "\<forall>i<size (nodes h). nodes h1 ! i = nodes h ! i"
      using c(4,6) m le by simp
    moreover have "array_fits h1" using c(4,5) by (simp add: array_fits_def)
    ultimately show ?thesis using c m a le by simp
  qed
  then show "length_h h1 = length_h h" "cmp h1 = cmp h" "allocated h1 = size (nodes h1)"
    "allocated h1 < SIZE_MOD" "size (nodes h) \<le> size (nodes h1)" "t \<le> size (nodes h1)"
    "\<forall>i<size (nodes h). nodes h1 ! i = nodes h ! i" "array_fits h \<longrightarrow> array_fits h1"
    by blast+
qed

text \<open>
  When the first \<open>for\<close> loop of \<open>islbh_batchenq\<close> stays in the array that \<open>islbh__grow\<close>
  returned, the size in bytes of that array did not wrap around.
\<close>

lemma batchenq_no_wrap:
  assumes wf: "wf_heap h"
    and w: "islbh_batchenq_while (allocated h) ((length_h h + cnt) mod SIZE_MOD) = Some alloc"
    and gr: "allocated h < alloc"
    and g: "islbh__grow ra h alloc = (ISLBH_ERROR_OK, h1)"
    and f: "islbh_batchenq_for h1 (length_h h) items cnt 0 = Returns h2"
  shows "alloc < 2 ^ 60"
proof -
  let ?n = "length_h h" let ?t = "(length_h h + cnt) mod SIZE_MOD"
  from while_result [OF w] gr have at: "allocated h < ?t" by simp
  from wf have n: "?n \<le> allocated h" "allocated h < SIZE_MOD" by (simp_all add: wf_heap_def)
  have c0: "0 < cnt"
  proof (rule ccontr)
    assume "\<not> 0 < cnt"
    with n have "?t = ?n" by simp
    with at n show False by simp
  qed
  from grow_cases [OF g] have sz: "size (nodes h1) = alloc mod 2 ^ 60" by simp
  then have lt: "size (nodes h1) < 2 ^ 60" by simp
  then have sm: "size (nodes h1) < SIZE_MOD" by (simp add: SIZE_MOD_def)
  from n have "?n mod SIZE_MOD = ?n" by simp
  with f c0 have "?n + 0 \<le> size (nodes h1)"
    by (subst (asm) batchenq_for_unfold) (simp split: if_splits)
  from batchenq_for_result [OF f sm this] have le: "?n + cnt \<le> size (nodes h1)" by simp
  with sm have "?t = ?n + cnt" by simp
  with le sz have "?t \<le> alloc mod 2 ^ 60" by simp
  moreover from while_bound [OF w] gr have "alloc < 2 * ?t" by simp
  ultimately show ?thesis by (rule wrapped_slots)
qed

lemma batchenq_grown:
  assumes wf: "wf_heap h"
    and w: "islbh_batchenq_while (allocated h) ((length_h h + cnt) mod SIZE_MOD) = Some alloc"
    and g: "(if allocated h < alloc then islbh__grow ra h alloc else (ISLBH_ERROR_OK, h))
             = (ISLBH_ERROR_OK, h1)"
    and f: "islbh_batchenq_for h1 (length_h h) items cnt 0 = Returns h2"
  shows "length_h h1 = length_h h" "cmp h1 = cmp h" "allocated h1 = size (nodes h1)"
    "allocated h1 < SIZE_MOD" "size (nodes h) \<le> size (nodes h1)"
    "(length_h h + cnt) mod SIZE_MOD \<le> size (nodes h1)"
    "\<forall>i<size (nodes h). nodes h1 ! i = nodes h ! i" "array_fits h \<longrightarrow> array_fits h1"
proof -
  have "allocated h < alloc \<longrightarrow> alloc < 2 ^ 60"
  proof
    assume gr: "allocated h < alloc"
    with g have "islbh__grow ra h alloc = (ISLBH_ERROR_OK, h1)" by simp
    from batchenq_no_wrap [OF wf w gr this f] show "alloc < 2 ^ 60" .
  qed
  from batchenq_grown_small [OF wf w g this]
  show "length_h h1 = length_h h" "cmp h1 = cmp h" "allocated h1 = size (nodes h1)"
    "allocated h1 < SIZE_MOD" "size (nodes h) \<le> size (nodes h1)"
    "(length_h h + cnt) mod SIZE_MOD \<le> size (nodes h1)"
    "\<forall>i<size (nodes h). nodes h1 ! i = nodes h ! i" "array_fits h \<longrightarrow> array_fits h1"
    by blast+
qed


lemma batchenq_stored:
  assumes inv: "invariants h"
    and h1: "length_h h1 = length_h h" "cmp h1 = cmp h" "allocated h1 = size (nodes h1)"
      "allocated h1 < SIZE_MOD" "size (nodes h) \<le> size (nodes h1)"
      "\<forall>i<size (nodes h). nodes h1 ! i = nodes h ! i"
    and f: "islbh_batchenq_for h1 (length_h h) items cnt 0 = Returns h2"
    and h3: "h3 = h2\<lparr>length_h := (length_h h + cnt) mod SIZE_MOD\<rparr>"
  shows "wf_heap h3" "positions_ok h3" "cmp h3 = cmp h" "length_h h3 = length_h h + cnt"
    "active_items h3 = active_items h + mset (map items [0..<cnt])"
    "allocated h3 = allocated h1" "size (nodes h3) = size (nodes h1)"
proof -
  let ?n = "length_h h"
  from inv have wf: "?n \<le> size (nodes h)" and pos: "positions_ok h"
    by (simp_all add: invariants_def wf_heap_def array_fits_def)
  have "size (nodes h1) < SIZE_MOD" "?n + 0 \<le> size (nodes h1)" using h1 wf by simp_all
  from batchenq_for_result [OF f this]
  have r: "?n + cnt \<le> size (nodes h1)" "length_h h2 = length_h h1" "allocated h2 = allocated h1"
    "cmp h2 = cmp h1" "size (nodes h2) = size (nodes h1)"
    "\<forall>j < size (nodes h1). nodes h2 ! j =
           (if ?n \<le> j \<and> j < ?n + cnt then \<lparr>item = items (j - ?n), index = j\<rparr>
            else nodes h1 ! j)" by simp_all
  have m: "(?n + cnt) mod SIZE_MOD = ?n + cnt" using r(1) h1(3,4) by simp
  show fr: "cmp h3 = cmp h" "length_h h3 = ?n + cnt" "allocated h3 = allocated h1"
    using r h1 m by (simp_all add: h3)
  have sz3: "size (nodes h3) = size (nodes h1)" "nodes h3 = nodes h2" using r by (simp_all add: h3)
  show "size (nodes h3) = size (nodes h1)" by (rule sz3(1))
  show "wf_heap h3" using fr r h1 sz3 by (simp add: wf_heap_def)
  have old: "nodes h3 ! j = nodes h ! j" if "j < ?n" for j
    using r(6) h1(5,6) that wf sz3 by simp
  have new: "nodes h3 ! j = \<lparr>item = items (j - ?n), index = j\<rparr>" if "?n \<le> j" "j < ?n + cnt" for j
    using r(6) r(1) that sz3 by simp
  show "positions_ok h3"
    unfolding positions_ok_def
  proof
    fix j assume "j \<in> {0..<length_h h3}"
    then have "j < ?n \<or> (?n \<le> j \<and> j < ?n + cnt)" using fr by auto
    with old [of j] new [of j] pos show "index (nodes h3 ! j) = j"
      by (auto simp: positions_ok_def)
  qed
  have "map item (take (?n + cnt) (nodes h3)) = map item (take ?n (nodes h)) @ map items [0..<cnt]"
  proof (rule nth_equalityI)
    show "length (map item (take (?n + cnt) (nodes h3)))
        = length (map item (take ?n (nodes h)) @ map items [0..<cnt])"
      using r(1) sz3 wf by simp
  next
    fix j assume "j < length (map item (take (?n + cnt) (nodes h3)))"
    then have j: "j < ?n + cnt" using r(1) sz3 by simp
    have l: "map item (take (?n + cnt) (nodes h3)) ! j = key h3 j" using j r(1) sz3 by simp
    show "map item (take (?n + cnt) (nodes h3)) ! j
        = (map item (take ?n (nodes h)) @ map items [0..<cnt]) ! j"
    proof (cases "j < ?n")
      case True
      with old [OF True] wf l show ?thesis by (simp add: nth_append)
    next
      case False
      with new [of j] j wf l show ?thesis by (simp add: nth_append)
    qed
  qed
  then show "active_items h3 = active_items h + mset (map items [0..<cnt])"
    by (simp add: active_items_def fr)
qed


lemma batchenq_correct:
  assumes inv: "invariants h" and tp: "total_preorder (cmp h)"
    and run: "islbh_batchenq ra h items cnt w = Some (Returns (ISLBH_ERROR_OK, h', cs))"
  shows "invariants h' \<and> cmp h' = cmp h
     \<and> active_items h' = active_items h + mset (map items [0..<cnt])
     \<and> length_h h' = length_h h + cnt"
proof -
  let ?n = "length_h h" let ?t = "(length_h h + cnt) mod SIZE_MOD"
  from inv have wf: "wf_heap h" and af: "array_fits h" by (simp_all add: invariants_def)
  from run obtain alloc where w: "islbh_batchenq_while (allocated h) ?t = Some alloc"
    by (auto simp: batchenq_unfold split: option.splits)
  let ?g = "if allocated h < alloc then islbh__grow ra h alloc else (ISLBH_ERROR_OK, h)"
  obtain err h1 where g: "?g = (err, h1)" by (cases ?g)
  have "err = ISLBH_ERROR_OK"
  proof (rule ccontr)
    assume "err \<noteq> ISLBH_ERROR_OK"
    with run w g show False by (simp add: batchenq_unfold)
  qed
  with g have g': "?g = (ISLBH_ERROR_OK, h1)" by simp
  from run w g' obtain h2 where f: "islbh_batchenq_for h1 ?n items cnt 0 = Returns h2"
    and fl: "islbh__floyd_algorithm (h2\<lparr>length_h := ?t\<rparr>) = Returns h'"
    by (auto simp: batchenq_unfold split: outcome.splits)
  note h1 = batchenq_grown [OF wf w g' f]
  note st = batchenq_stored [OF inv h1(1,2,3,4,5,7) f refl]
  have sz3: "length_h (h2\<lparr>length_h := ?t\<rparr>) \<le> size (nodes (h2\<lparr>length_h := ?t\<rparr>))"
    using st(1) by (simp add: wf_heap_def)
  have tp3: "total_preorder (cmp (h2\<lparr>length_h := ?t\<rparr>))" using st(3) tp by simp
  from floyd_algorithm_correct [OF fl tp3 sz3]
  have ho: "heap_order h'" and sh: "same_heap (h2\<lparr>length_h := ?t\<rparr>) h'" by simp_all
  have "array_fits h'" using sh st(7) h1(8) af unfolding array_fits_def same_heap_def by simp
  then have "invariants h'"
    using ho sh st(1,2) unfolding invariants_def wf_heap_def same_heap_def by simp
  moreover have "cmp h' = cmp h" "length_h h' = ?n + cnt"
    "active_items h' = active_items h + mset (map items [0..<cnt])"
    using sh st unfolding same_heap_def by simp_all
  ultimately show ?thesis by simp
qed



subsection \<open>Preservation of the invariants\<close>

lemmas run_simps =
  islbh_enqueue_def islbh__grow_def ISLBH_REALLOC_def NODE_SIZE_def PTRDIFF_MAX_def
  islbh__siftup.simps islbh__swap_def Let_def SIZE_MOD_def
  islbh_dequeue_def islbh__siftdown_floyd.simps islbh__siftdown.simps upt_conv_Cons
  batchenq_unfold while_step while_stop islbh_batchenq_for.simps islbh__floyd_algorithm_def
  islbh__floyd_algorithm_loop.simps islbh_update_def islbh_remove_def deref_def

lemmas inv_simps =
  invariants_def wf_heap_def array_fits_def NODE_SIZE_def PTRDIFF_MAX_def positions_ok_def heap_order_def heap_order_except_def parent_def
  SIZE_MOD_def atLeastLessThan_upt upt_conv_Cons










subsection \<open>Error returns\<close>





subsection \<open>Batch insertion against sequential insertion\<close>

lemma sorted_prefix_le:
  assumes tp: "total_preorder c" and s: "sorted_wrt (\<lambda>a b. c a b \<le> 0) xs"
    and "j \<le> i" "i < length xs"
  shows "c (xs ! j) (xs ! i) \<le> 0"
proof (cases "j = i")
  case True
  with tp_refl [OF tp] show ?thesis by simp
next
  case False
  with assms(3) have "j < i" by simp
  from sorted_wrt_nth_less [OF s this assms(4)] show ?thesis .
qed

lemma sorted_mset_nth_not_less:
  assumes tp: "total_preorder c"
    and sx: "sorted_wrt (\<lambda>a b. c a b \<le> 0) xs" and sy: "sorted_wrt (\<lambda>a b. c a b \<le> 0) ys"
    and m: "mset xs = mset ys" and i: "i < length xs"
  shows "\<not> c (xs ! i) (ys ! i) < 0"
proof
  assume lt: "c (xs ! i) (ys ! i) < 0"
  let ?P = "\<lambda>z. c z (xs ! i) \<le> 0"
  from m have len: "length ys = length xs" by (metis size_mset)
  have "\<forall>z \<in> set (take (Suc i) xs). ?P z"
  proof
    fix z assume "z \<in> set (take (Suc i) xs)"
    then obtain j where "j < length (take (Suc i) xs)" "take (Suc i) xs ! j = z"
      unfolding in_set_conv_nth by blast
    then have "j \<le> i" "z = xs ! j" using i by auto
    with sorted_prefix_le [OF tp sx _ i] show "?P z" by simp
  qed
  then have "filter ?P (take (Suc i) xs) = take (Suc i) xs" by (simp add: filter_True)
  then have "length (filter ?P (take (Suc i) xs)) = Suc i" using i by simp
  moreover have "length (filter ?P xs)
      = length (filter ?P (take (Suc i) xs)) + length (filter ?P (drop (Suc i) xs))"
    by (metis append_take_drop_id filter_append length_append)
  ultimately have gx: "Suc i \<le> length (filter ?P xs)" by simp
  have "\<forall>z \<in> set (drop i ys). \<not> ?P z"
  proof
    fix z assume "z \<in> set (drop i ys)"
    then obtain j where j: "j < length (drop i ys)" "drop i ys ! j = z"
      unfolding in_set_conv_nth by blast
    then have z: "z = ys ! (i + j)" "i + j < length ys" by auto
    have "c (ys ! i) (ys ! (i + j)) \<le> 0"
      using sorted_prefix_le [OF tp sy, of i "i + j"] z(2) by simp
    show "\<not> ?P z"
    proof
      assume "?P z"
      with z \<open>c (ys ! i) (ys ! (i + j)) \<le> 0\<close> have "c (ys ! i) (xs ! i) \<le> 0"
        using tp_le_trans [OF tp] by blast
      with lt tp_sym [OF tp, of "xs ! i" "ys ! i"] show False by simp
    qed
  qed
  then have "filter ?P (drop i ys) = []" by (simp add: filter_False)
  moreover have "length (filter ?P ys)
      = length (filter ?P (take i ys)) + length (filter ?P (drop i ys))"
    by (metis append_take_drop_id filter_append length_append)
  moreover have "length (filter ?P (take i ys)) \<le> i"
    using length_filter_le [of ?P "take i ys"] by simp
  ultimately have gy: "length (filter ?P ys) \<le> i" by simp
  have "mset (filter ?P xs) = mset (filter ?P ys)" using m by (simp add: mset_filter)
  then have "length (filter ?P xs) = length (filter ?P ys)" by (metis size_mset)
  with gx gy show False by simp
qed

lemma sorted_same_mset_equiv:
  assumes tp: "total_preorder c"
    and sx: "sorted_wrt (\<lambda>a b. c a b \<le> 0) xs" and sy: "sorted_wrt (\<lambda>a b. c a b \<le> 0) ys"
    and m: "mset xs = mset ys"
  shows "list_all2 (\<lambda>a b. c a b = 0) xs ys"
proof -
  from m have len: "length xs = length ys" by (metis size_mset)
  have "c (xs ! i) (ys ! i) = 0" if i: "i < length xs" for i
  proof -
    from sorted_mset_nth_not_less [OF tp sx sy m i] have 1: "\<not> c (xs ! i) (ys ! i) < 0" .
    from sorted_mset_nth_not_less [OF tp sy sx m [symmetric]] i len
    have "\<not> c (ys ! i) (xs ! i) < 0" by simp
    with tp_sym [OF tp, of "ys ! i" "xs ! i"] have "\<not> 0 < c (xs ! i) (ys ! i)" by simp
    with 1 show ?thesis by simp
  qed
  with len show ?thesis by (simp add: list_all2_conv_all_nth)
qed


text \<open>
  Claim C7. From a heap that satisfies the invariants, one \<open>islbh_batchenq\<close> call with
  \<open>cnt\<close> items, and a sequence of \<open>islbh_enqueue\<close> calls with the same items in any order,
  none of which returns \<open>NULL\<close>, leave heaps that drain, by repeated \<open>islbh_dequeue\<close>, to
  sequences that are both sorted by the comparator, hold the same items (the old ones and
  the new ones) and agree position by position up to ties.
\<close>

theorem batch_equivalence:
  assumes "invariants h" and "total_preorder (cmp h)"
    and "islbh_batchenq ra h items cnt w = Some (Returns (ISLBH_ERROR_OK, hb, cs))"
    and "mset zs = mset (map items [0..<cnt])"
    and "enqueue_all ra' h zs = Returns (ps, hs)" and "None \<notin> set ps"
  shows "\<exists>xs ys. drain hb = Returns xs \<and> drain hs = Returns ys
     \<and> mset xs = active_items h + mset (map items [0..<cnt]) \<and> mset ys = mset xs
     \<and> sorted_wrt (\<lambda>a b. cmp h a b \<le> 0) xs \<and> sorted_wrt (\<lambda>a b. cmp h a b \<le> 0) ys
     \<and> list_all2 (\<lambda>a b. cmp h a b = 0) xs ys"
proof -
  from batchenq_correct [OF assms(1,2,3)]
  have b: "invariants hb" "cmp hb = cmp h"
    "active_items hb = active_items h + mset (map items [0..<cnt])" by simp_all
  from enqueue_all_correct [OF assms(1,2,5)] assms(4,6)
  have s: "invariants hs" "cmp hs = cmp h"
    "active_items hs = active_items h + mset (map items [0..<cnt])" by simp_all
  from drain_correct [OF b(1)] b(2) assms(2) obtain xs where
    xs: "drain hb = Returns xs" "mset xs = active_items hb"
    "sorted_wrt (\<lambda>a b. cmp h a b \<le> 0) xs" by auto
  from drain_correct [OF s(1)] s(2) assms(2) obtain ys where
    ys: "drain hs = Returns ys" "mset ys = active_items hs"
    "sorted_wrt (\<lambda>a b. cmp h a b \<le> 0) ys" by auto
  have m: "mset xs = mset ys" using xs(2) ys(2) b(3) s(3) by simp
  from sorted_same_mset_equiv [OF assms(2) xs(3) ys(3) m]
  have "list_all2 (\<lambda>a b. cmp h a b = 0) xs ys" .
  with xs ys m b(3) show ?thesis by auto
qed

lemma ex_batch:
  "islbh_batchenq ex_alloc ex_heap ex_items 4 False = Some (Returns (ISLBH_ERROR_OK, ex_heap_b, []))"
  by (simp add: run_simps ex_heap_def ex_heap_b_def ex_alloc_def ex_cmp_def ex_items_def)

lemma ex_seq:
  "enqueue_all ex_alloc ex_heap [9, 2, 7, 0]
     = Returns ([Some (Slot 0), Some (Slot 0), Some (Slot 2), Some (Slot 0)], ex_heap_b)"
  by (simp add: run_simps ex_heap_def ex_heap_b_def ex_alloc_def ex_cmp_def)

lemma ex_drain_b: "drain ex_heap_b = Returns [0, 2, 7, 9]"
  by (simp add: run_simps ex_heap_b_def ex_cmp_def drain.simps)

theorem batch_equivalence_witness:
  "invariants ex_heap \<and> total_preorder (cmp ex_heap)
   \<and> islbh_batchenq ex_alloc ex_heap ex_items 4 False
       = Some (Returns (ISLBH_ERROR_OK, ex_heap_b, []))
   \<and> mset [9, 2, 7, 0] = mset (map ex_items [0..<4])
   \<and> enqueue_all ex_alloc ex_heap [9, 2, 7, 0]
       = Returns ([Some (Slot 0), Some (Slot 0), Some (Slot 2), Some (Slot 0)], ex_heap_b)
   \<and> drain ex_heap_b = Returns [0, 2, 7, 9]
   \<and> sorted_wrt (\<lambda>a b. cmp ex_heap a b \<le> 0) [0, 2, 7, 9 :: int]"
proof -
  have inv: "invariants ex_heap" by (rule ex_heap_invariants)
  have tp: "total_preorder (cmp ex_heap)" by (simp add: ex_heap_def ex_cmp_total_preorder)
  have m: "mset [9, 2, 7, 0] = mset (map ex_items [0..<4])"
    by (simp add: ex_items_def upt_conv_Cons)
  have n: "None \<notin> set [Some (Slot 0), Some (Slot 0), Some (Slot 2), Some (Slot 0 :: int node_ptr)]"
    by simp
  from batch_equivalence [OF inv tp ex_batch m ex_seq n] ex_drain_b
  have "sorted_wrt (\<lambda>a b. cmp ex_heap a b \<le> 0) [0, 2, 7, 9 :: int]" by auto
  with inv tp ex_batch m ex_seq ex_drain_b show ?thesis by blast
qed


subsection \<open>The two sift-downs\<close>

lemma swap_eq: "islbh__swap h a b = Returns h1 \<Longrightarrow> h1 = h\<lparr>nodes := nodes h1\<rparr>"
  by (auto simp: islbh__swap_def Let_def split: if_splits)

lemma swap_swap:
  assumes sw: "islbh__swap h a b = Returns h1"
    and ia: "index (nodes h ! a) = a" and ib: "index (nodes h ! b) = b"
  shows "islbh__swap h1 b a = Returns h"
proof -
  from swap_frame [OF sw] have fr: "size (nodes h1) = size (nodes h)"
    "a < size (nodes h)" "b < size (nodes h)" by simp_all
  then obtain h2 where sw2: "islbh__swap h1 b a = Returns h2"
    using swap_Returns_iff [of h1 b a] by auto
  have "nodes h2 = nodes h"
  proof (rule nth_equalityI)
    show "length (nodes h2) = length (nodes h)" using swap_frame(4) [OF sw2] fr by simp
  next
    fix i assume "i < length (nodes h2)"
    then have i: "i < size (nodes h)" "i < size (nodes h1)" using swap_frame(4) [OF sw2] fr by simp_all
    from swap_nth [OF sw2 i(2)] swap_nth [OF sw, of a] swap_nth [OF sw, of b]
      swap_nth [OF sw i(1)] fr ia ib
    show "nodes h2 ! i = nodes h ! i" by (auto split: if_splits)
  qed
  with swap_eq [OF sw2] swap_eq [OF sw] have "h2 = h"
    by (metis islbh_binary_heap.update_convs(4) islbh_binary_heap.surjective islbh_binary_heap.select_convs(4) islbh_binary_heap.cases)
  with sw2 show ?thesis by simp
qed


text \<open>
  When the slot at \<open>c\<close> compares strictly ahead of its children and the slots below are in
  heap order, the unconditional descent followed by the sift-up brings every slot back:
  \<open>islbh__siftdown_floyd\<close> does what \<open>islbh__siftup\<close> alone does.
\<close>

lemma floyd_undo:
  assumes tp: "total_preorder (cmp h)" and sz: "length_h h \<le> size (nodes h)"
    and pos: "positions_ok h" and c: "c < length_h h" and ob: "order_below h c"
    and strict: "\<forall>j. 0 < j \<and> j < length_h h \<and> parent j = c \<longrightarrow> cmp h (key h c) (key h j) < 0"
  shows "islbh__siftdown_floyd h c =
     (case islbh__siftup h c of OutOfBounds \<Rightarrow> OutOfBounds | Returns (h', _) \<Rightarrow> Returns h')"
  using assms
proof (induction "length_h h - c" arbitrary: h c rule: less_induct)
  case less
  note tp = less.prems(1) and sz = less.prems(2) and pos = less.prems(3) and c = less.prems(4)
    and ob = less.prems(5) and strict = less.prems(6)
  show ?case
  proof (cases "c * 2 + 1 < length_h h")
    case False
    then show ?thesis by (subst siftdown_floyd_unfold) simp
  next
    case True
    note l = this
    let ?d = "higher_child h c"
    have d: "?d < length_h h" "c < ?d" "parent ?d = c" "0 < ?d" "(?d - 1) div 2 = c"
      using higher_child_less [OF l] higher_child_greater [of c h] parent_higher_child [of h c]
      by (auto simp: parent_def)
    from d c sz obtain h2 where sw: "islbh__swap h c ?d = Returns h2"
      using swap_Returns_iff [of h c ?d] by auto
    have fr: "length_h h2 = length_h h" "cmp h2 = cmp h" "size (nodes h2) = size (nodes h)"
      using swap_frame [OF sw] by simp_all
    note key2 = swap_key_active [OF sw sz]
    have kd: "key h2 ?d = key h c" "key h2 c = key h ?d" using key2 [of ?d] key2 [of c] d c by auto
    have pos2: "positions_ok h2" by (rule swap_positions_ok [OF sw c d(1) sz pos])
    have ob2: "order_below h2 ?d"
      unfolding order_below_def
    proof (intro allI impI)
      fix j assume j: "0 < j \<and> j < length_h h2 \<and> ?d < parent j"
      then have jj: "j < length_h h" "parent j < length_h h" "j \<noteq> c" "j \<noteq> ?d"
        "parent j \<noteq> c" "parent j \<noteq> ?d" "c < parent j"
        using fr parent_less [of j] d by auto
      with ob j have "0 \<le> cmp h (key h j) (key h (parent j))" unfolding order_below_def by blast
      with key2 [of j] key2 [of "parent j"] jj fr
      show "0 \<le> cmp h2 (key h2 j) (key h2 (parent j))" by simp
    qed
    have xd: "cmp h (key h c) (key h ?d) < 0" using strict d by blast
    have strict2: "\<forall>j. 0 < j \<and> j < length_h h2 \<and> parent j = ?d
        \<longrightarrow> cmp h2 (key h2 ?d) (key h2 j) < 0"
    proof (intro allI impI)
      fix j assume j: "0 < j \<and> j < length_h h2 \<and> parent j = ?d"
      then have jj: "j < length_h h" "j \<noteq> c" "j \<noteq> ?d" "c < parent j"
        using fr parent_less [of j] d by auto
      with ob j have "0 \<le> cmp h (key h j) (key h ?d)" unfolding order_below_def by auto
      from tp_lt_ge_strict [OF tp xd this] key2 [of j] jj kd fr
      show "cmp h2 (key h2 ?d) (key h2 j) < 0" by simp
    qed
    have "length_h h2 - ?d < length_h h - c" using fr d by simp
    from less.hyps [OF this _ _ pos2 _ ob2 strict2] tp sz fr d
    have ih: "islbh__siftdown_floyd h2 ?d =
        (case islbh__siftup h2 ?d of OutOfBounds \<Rightarrow> OutOfBounds | Returns (h', _) \<Rightarrow> Returns h')"
      by simp
    have ic: "index (nodes h ! c) = c" "index (nodes h ! ?d) = ?d"
      using pos c d by (simp_all add: positions_ok_def)
    from swap_swap [OF sw ic] have swb: "islbh__swap h2 ?d c = Returns h" .
    have "islbh__siftup h2 ?d = islbh__siftup h c"
      using d xd kd fr sz swb by (subst siftup_unfold) simp
    with ih have "islbh__siftdown_floyd h2 ?d =
        (case islbh__siftup h c of OutOfBounds \<Rightarrow> OutOfBounds | Returns (h', _) \<Rightarrow> Returns h')"
      by simp
    moreover have "islbh__siftdown_floyd h c = islbh__siftdown_floyd h2 ?d"
      using l sw sz by (subst siftdown_floyd_unfold) auto
    ultimately show ?thesis by simp
  qed
qed

lemma siftup_stays:
  assumes "k = 0 \<or> (k < size (nodes h) \<and> 0 \<le> cmp h (key h k) (key h (parent k)))"
  shows "islbh__siftup h k = Returns (h, k)"
  using assms by (subst siftup_unfold) (auto simp: parent_def)

lemma floyd_eq_siftdown:
  assumes tp: "total_preorder (cmp h)" and sz: "length_h h \<le> size (nodes h)"
    and pos: "positions_ok h" and k: "k < length_h h" and ob: "order_below h k"
    and up: "0 < k \<longrightarrow> 0 \<le> cmp h (key h k) (key h (parent k))"
  shows "islbh__siftdown_floyd h k = islbh__siftdown h k"
  using assms
proof (induction "length_h h - k" arbitrary: h k rule: less_induct)
  case less
  note tp = less.prems(1) and sz = less.prems(2) and pos = less.prems(3) and k = less.prems(4)
    and ob = less.prems(5) and up = less.prems(6)
  have stay: "islbh__siftup h k = Returns (h, k)"
    using siftup_stays [of k h] up k sz by auto
  show ?case
  proof (cases "k * 2 + 1 < length_h h")
    case False
    with stay show ?thesis
      by (subst siftdown_floyd_unfold, subst siftdown_unfold) simp
  next
    case True
    note l = this
    let ?c = "higher_child h k"
    have c: "?c < length_h h" "k < ?c" "parent ?c = k" "0 < ?c" "(?c - 1) div 2 = k"
      using higher_child_less [OF l] higher_child_greater [of k h] parent_higher_child [of h k]
      by (auto simp: parent_def)
    from c k sz obtain h1 where sw: "islbh__swap h k ?c = Returns h1"
      using swap_Returns_iff [of h k ?c] by auto
    have fr: "length_h h1 = length_h h" "cmp h1 = cmp h" "size (nodes h1) = size (nodes h)"
      using swap_frame [OF sw] by simp_all
    note key1 = swap_key_active [OF sw sz]
    have kc: "key h1 ?c = key h k" "key h1 k = key h ?c" using key1 [of ?c] key1 [of k] c k by auto
    have pos1: "positions_ok h1" by (rule swap_positions_ok [OF sw k c(1) sz pos])
    have ob1: "order_below h1 ?c"
      unfolding order_below_def
    proof (intro allI impI)
      fix j assume j: "0 < j \<and> j < length_h h1 \<and> ?c < parent j"
      then have jj: "j < length_h h" "parent j < length_h h" "j \<noteq> k" "j \<noteq> ?c"
        "parent j \<noteq> k" "parent j \<noteq> ?c" "k < parent j"
        using fr parent_less [of j] c by auto
      with ob j have "0 \<le> cmp h (key h j) (key h (parent j))" unfolding order_below_def by blast
      with key1 [of j] key1 [of "parent j"] jj fr
      show "0 \<le> cmp h1 (key h1 j) (key h1 (parent j))" by simp
    qed
    have fl: "islbh__siftdown_floyd h k = islbh__siftdown_floyd h1 ?c"
      using l sw sz by (subst siftdown_floyd_unfold) auto
    show ?thesis
    proof (cases "cmp h (key h k) (key h ?c) < 0")
      case True
      have strict1: "\<forall>j. 0 < j \<and> j < length_h h1 \<and> parent j = ?c
          \<longrightarrow> cmp h1 (key h1 ?c) (key h1 j) < 0"
      proof (intro allI impI)
        fix j assume j: "0 < j \<and> j < length_h h1 \<and> parent j = ?c"
        then have jj: "j < length_h h" "j \<noteq> k" "j \<noteq> ?c" "k < parent j"
          using fr parent_less [of j] c by auto
        with ob j have "0 \<le> cmp h (key h j) (key h ?c)" unfolding order_below_def by auto
        from tp_lt_ge_strict [OF tp True this] key1 [of j] jj kc fr
        show "cmp h1 (key h1 ?c) (key h1 j) < 0" by simp
      qed
      from floyd_undo [OF _ _ pos1 _ ob1 strict1] tp sz fr c
      have "islbh__siftdown_floyd h1 ?c =
          (case islbh__siftup h1 ?c of OutOfBounds \<Rightarrow> OutOfBounds | Returns (h', _) \<Rightarrow> Returns h')"
        by simp
      moreover have ic: "index (nodes h ! k) = k" "index (nodes h ! ?c) = ?c"
        using pos k c by (simp_all add: positions_ok_def)
      from swap_swap [OF sw ic] have swb: "islbh__swap h1 ?c k = Returns h" .
      have "islbh__siftup h1 ?c = islbh__siftup h k"
        using c True kc fr sz swb by (subst siftup_unfold) simp
      ultimately have "islbh__siftdown_floyd h1 ?c = Returns h" using stay by simp
      moreover have "islbh__siftdown h k = Returns h"
        using l c sz True by (subst siftdown_unfold) auto
      ultimately show ?thesis using fl by simp
    next
      case False
      have "length_h h1 - ?c < length_h h - k" using fr c by simp
      moreover have "0 < ?c \<longrightarrow> 0 \<le> cmp h1 (key h1 ?c) (key h1 (parent ?c))"
        using False kc c fr by simp
      ultimately have "islbh__siftdown_floyd h1 ?c = islbh__siftdown h1 ?c"
        using less.hyps [of h1 ?c] tp sz fr pos1 c ob1 by simp
      moreover have "islbh__siftdown h k = islbh__siftdown h1 ?c"
        using l c sz False sw by (subst siftdown_unfold) auto
      ultimately show ?thesis using fl by simp
    qed
  qed
qed

text \<open>
  Claim C6 as stated fails. On the heap of the items 5, 7, 9, 4, whose root compares ahead
  of both children, \<open>islbh__siftdown\<close> from the root changes nothing, and
  \<open>islbh__siftdown_floyd\<close> from the root leaves 7, 4, 9, 5.
\<close>

theorem floyd_differs_counterexample:
  "total_preorder (cmp ex_heap4) \<and> wf_heap ex_heap4 \<and> positions_ok ex_heap4
   \<and> islbh__siftdown ex_heap4 0 = Returns ex_heap4
   \<and> islbh__siftdown_floyd ex_heap4 0
       = Returns (ex_heap4\<lparr>nodes := [\<lparr>item = 7, index = 0\<rparr>, \<lparr>item = 4, index = 1\<rparr>,
            \<lparr>item = 9, index = 2\<rparr>, \<lparr>item = 5, index = 3\<rparr>]\<rparr>)
   \<and> islbh__siftdown_floyd ex_heap4 0 \<noteq> islbh__siftdown ex_heap4 0"
  by (simp add: total_preorder_def wf_heap_def positions_ok_def ex_heap4_def ex_cmp_def
      SIZE_MOD_def islbh__siftdown.simps islbh__siftdown_floyd.simps islbh__siftup.simps
      islbh__swap_def Let_def atLeastLessThan_upt upt_conv_Cons del: set_upt)

text \<open>
  Claim C6, amended. On a well-formed heap with consistent positions, a total preorder as
  comparator, and heap order at every active slot that is not a child of \<open>k\<close>,
  \<open>islbh__siftdown_floyd\<close> and \<open>islbh__siftdown\<close> from \<open>k\<close> return the same heap.
\<close>

theorem floyd_equals_siftdown:
  assumes "total_preorder (cmp h)" and "wf_heap h" and "positions_ok h" and "k < length_h h"
    and "heap_order_except h k"
  shows "\<exists>h'. islbh__siftdown_floyd h k = Returns h' \<and> islbh__siftdown h k = Returns h'"
proof -
  from assms(2) have sz: "length_h h \<le> size (nodes h)" by (simp add: wf_heap_def)
  have ob: "order_below h k"
    unfolding order_below_def
  proof (intro allI impI)
    fix j assume "0 < j \<and> j < length_h h \<and> k < parent j"
    with assms(5) show "0 \<le> cmp h (key h j) (key h (parent j))"
      by (auto simp: heap_order_except_def)
  qed
  have up: "0 < k \<longrightarrow> 0 \<le> cmp h (key h k) (key h (parent k))"
    using assms(4,5) parent_less [of k] by (auto simp: heap_order_except_def)
  from floyd_eq_siftdown [OF assms(1) sz assms(3,4) ob up]
  have "islbh__siftdown_floyd h k = islbh__siftdown h k" .
  with siftdown_total [OF sz, of k] show ?thesis by auto
qed

theorem floyd_equals_siftdown_witness:
  "total_preorder (cmp ex_heap4r) \<and> wf_heap ex_heap4r \<and> positions_ok ex_heap4r
   \<and> 0 < length_h ex_heap4r \<and> heap_order_except ex_heap4r 0
   \<and> islbh__siftdown_floyd ex_heap4r 0
       = Returns (ex_heap4r\<lparr>nodes := [\<lparr>item = 3, index = 0\<rparr>, \<lparr>item = 4, index = 1\<rparr>,
            \<lparr>item = 5, index = 2\<rparr>, \<lparr>item = 8, index = 3\<rparr>]\<rparr>)
   \<and> islbh__siftdown ex_heap4r 0 = islbh__siftdown_floyd ex_heap4r 0"
proof -
  have tp: "total_preorder (cmp ex_heap4r)"
    by (simp add: ex_heap4r_def ex_cmp_total_preorder)
  have h: "wf_heap ex_heap4r" "positions_ok ex_heap4r"
    "0 < length_h ex_heap4r" "heap_order_except ex_heap4r 0"
    by (simp_all add: inv_simps ex_heap4r_def ex_cmp_def del: set_upt)
  from floyd_equals_siftdown [OF tp h]
  have "islbh__siftdown ex_heap4r 0 = islbh__siftdown_floyd ex_heap4r 0" by auto
  moreover have "islbh__siftdown_floyd ex_heap4r 0
       = Returns (ex_heap4r\<lparr>nodes := [\<lparr>item = 3, index = 0\<rparr>, \<lparr>item = 4, index = 1\<rparr>,
            \<lparr>item = 5, index = 2\<rparr>, \<lparr>item = 8, index = 3\<rparr>]\<rparr>)"
    by (simp add: run_simps ex_heap4r_def ex_cmp_def)
  ultimately show ?thesis using tp h by blast
qed

end
